theory Spec2Isabelle
  imports Main
begin

section \<open>Values\<close>

text \<open>
  The filter plugin \<^verbatim>\<open>combine.py\<close> works on data loaded from YAML or JSON: \<^verbatim>\<open>None\<close>,
  booleans, integers, strings, lists and dicts with string keys. A dict is an association
  list in insertion order (the order \<^verbatim>\<open>iteritems\<close> walks); a well-formed dict has no
  key twice.
\<close>

datatype val =
    VNone
  | VBool bool
  | VInt int
  | VStr string
  | VList "val list"
  | VDict "(string \<times> val) list"

text \<open>
  Errors are values. Both \<^verbatim>\<open>raise AnsibleError(...)\<close> sites of \<^verbatim>\<open>merge_hash\<close> are kept
  apart by what they report: the policy check, and the check of
  \<^verbatim>\<open>_validate_mutable_mappings\<close>, which carries the arguments of its \<^verbatim>\<open>format\<close> call
  (the two class names and the two offending values). \<open>InvalidKeyword\<close> is the
  \<^verbatim>\<open>AnsibleFilterError\<close> of the driver. \<open>RecursionError\<close> is raised only in the object-store
  model below, when the interpreter's recursion budget is used up.
\<close>

datatype 'v error =
    InvalidPolicy
  | TypeMismatch string string 'v 'v
  | InvalidKeyword
  | RecursionError

text \<open>
  Python's \<^verbatim>\<open>==\<close> on these values: \<^verbatim>\<open>True == 1\<close> and \<^verbatim>\<open>False == 0\<close> hold
  (\<^verbatim>\<open>bool\<close> is a subclass of \<^verbatim>\<open>int\<close>), lists are compared element by element, and two
  dicts are equal when they have the same number of entries and every key of the left one
  is found in the right one with an equal value, whatever the order of the entries.
\<close>

fun py_eq :: "val \<Rightarrow> val \<Rightarrow> bool"
and py_eq_list :: "val list \<Rightarrow> val list \<Rightarrow> bool"
and py_eq_items :: "(string \<times> val) list \<Rightarrow> (string \<times> val) list \<Rightarrow> bool"
where
  "py_eq VNone b = (b = VNone)"
| "py_eq (VBool p) b =
     (case b of VBool q \<Rightarrow> p = q | VInt j \<Rightarrow> j = of_bool p | _ \<Rightarrow> False)"
| "py_eq (VInt i) b =
     (case b of VInt j \<Rightarrow> i = j | VBool q \<Rightarrow> i = of_bool q | _ \<Rightarrow> False)"
| "py_eq (VStr s) b = (b = VStr s)"
| "py_eq (VList xs) b = (case b of VList ys \<Rightarrow> py_eq_list xs ys | _ \<Rightarrow> False)"
| "py_eq (VDict xs) b =
     (case b of VDict ys \<Rightarrow> length xs = length ys \<and> py_eq_items xs ys | _ \<Rightarrow> False)"
| "py_eq_list [] ys = (ys = [])"
| "py_eq_list (x # xs) ys =
     (case ys of [] \<Rightarrow> False | y # ys' \<Rightarrow> py_eq x y \<and> py_eq_list xs ys')"
| "py_eq_items [] ys = True"
| "py_eq_items ((k, v) # xs) ys =
     (case map_of ys k of None \<Rightarrow> False | Some w \<Rightarrow> py_eq v w \<and> py_eq_items xs ys)"

text \<open>\<^verbatim>\<open>z in es\<close>: some element of \<open>es\<close> equals \<open>z\<close>.\<close>

fun py_in :: "val \<Rightarrow> val list \<Rightarrow> bool" where
  "py_in z [] = False"
| "py_in z (e # es) = (py_eq e z \<or> py_in z es)"

text \<open>
  A value is valid when no dict inside it, at any depth, holds a key twice: the values a
  Python program can build.
\<close>

fun valid :: "val \<Rightarrow> bool"
and valid_list :: "val list \<Rightarrow> bool"
and valid_items :: "(string \<times> val) list \<Rightarrow> bool"
where
  "valid VNone = True"
| "valid (VBool _) = True"
| "valid (VInt _) = True"
| "valid (VStr _) = True"
| "valid (VList xs) = valid_list xs"
| "valid (VDict its) = (distinct (map fst its) \<and> valid_items its)"
| "valid_list [] = True"
| "valid_list (x # xs) = (valid x \<and> valid_list xs)"
| "valid_items [] = True"
| "valid_items ((k, v) # its) = (valid v \<and> valid_items its)"

text \<open>\<^verbatim>\<open>isinstance(v, MutableMapping)\<close> and \<^verbatim>\<open>isinstance(v, MutableSequence)\<close>.\<close>

fun is_mapping :: "val \<Rightarrow> bool" where
  "is_mapping (VDict _) = True"
| "is_mapping _ = False"

fun is_mutable_sequence :: "val \<Rightarrow> bool" where
  "is_mutable_sequence (VList _) = True"
| "is_mutable_sequence _ = False"

text \<open>\<^verbatim>\<open>v.__class__.__name__\<close>.\<close>

fun class_name :: "val \<Rightarrow> string" where
  "class_name VNone = ''NoneType''"
| "class_name (VBool _) = ''bool''"
| "class_name (VInt _) = ''int''"
| "class_name (VStr _) = ''str''"
| "class_name (VList _) = ''list''"
| "class_name (VDict _) = ''dict''"

fun dict_items :: "val \<Rightarrow> (string \<times> val) list" where
  "dict_items (VDict its) = its"
| "dict_items _ = []"

fun list_elems :: "val \<Rightarrow> val list" where
  "list_elems (VList es) = es"
| "list_elems _ = []"

text \<open>
  \<^verbatim>\<open>x[key] = value\<close>: an existing key keeps its place, a new key goes to the end.
  \<^verbatim>\<open>x.update(y)\<close> stores the entries of \<open>y\<close> one after the other.
\<close>

fun dict_set :: "string \<Rightarrow> 'a \<Rightarrow> (string \<times> 'a) list \<Rightarrow> (string \<times> 'a) list" where
  "dict_set k v [] = [(k, v)]"
| "dict_set k v ((k', v') # its) =
     (if k' = k then (k, v) # its else (k', v') # dict_set k v its)"

fun dict_update :: "(string \<times> 'a) list \<Rightarrow> (string \<times> 'a) list \<Rightarrow> (string \<times> 'a) list" where
  "dict_update x [] = x"
| "dict_update x ((k, v) # rest) = dict_update (dict_set k v x) rest"

section \<open>The merge\<close>

definition list_merge_values :: "string list" where
  "list_merge_values =
     [''replace'', ''keep'', ''append'', ''prepend'', ''append_rp'', ''prepend_rp'']"

text \<open>
  \<^verbatim>\<open>_validate_mutable_mappings(a, b)\<close> returns nothing or raises; the model returns the
  error, if any.
\<close>

definition validate_mutable_mappings :: "val \<Rightarrow> val \<Rightarrow> val error option" where
  "validate_mutable_mappings a b =
     (if \<not> (is_mapping a \<and> is_mapping b)
      then Some (TypeMismatch (class_name a) (class_name b) a b)
      else None)"

text \<open>
  The text of the two \<^verbatim>\<open>AnsibleError\<close>s. \<^verbatim>\<open>json.dumps\<close> and Ansible's \<^verbatim>\<open>to_native\<close>
  are library code: \<open>dumps\<close> returns \<open>None\<close> where \<^verbatim>\<open>json.dumps\<close> raises, and
  \<open>to_native\<close> is the fallback of the \<^verbatim>\<open>except\<close> branch.
\<close>

definition myvar :: "('v \<Rightarrow> string option) \<Rightarrow> ('v \<Rightarrow> string) \<Rightarrow> 'v \<Rightarrow> string" where
  "myvar dumps to_native x = (case dumps x of Some s \<Rightarrow> s | None \<Rightarrow> to_native x)"

fun message :: "('v \<Rightarrow> string option) \<Rightarrow> ('v \<Rightarrow> string) \<Rightarrow> 'v error \<Rightarrow> string" where
  "message dumps to_native InvalidPolicy =
     ''merge_hash: 'list_merge' argument can only be equal to 'replace', 'keep', 'append', 'prepend', 'append_rp' or 'prepend_rp'' @ [CHR 0x27]"
| "message dumps to_native (TypeMismatch ca cb a b) =
     ''failed to combine variables, expected dicts but got a ''
       @ [CHR 0x27] @ ca @ [CHR 0x27] @ '' and a '' @ [CHR 0x27] @ cb @ [CHR 0x27] @ '': ''
       @ [CHR 0x0A] @ myvar dumps to_native a @ [CHR 0x0A] @ myvar dumps to_native b"
| "message dumps to_native InvalidKeyword =
     [CHR 0x27] @ ''recursive' and 'list_merge' are the only valid keyword arguments''"
| "message dumps to_native RecursionError = ''maximum recursion depth exceeded''"

text \<open>
  \<^verbatim>\<open>merge_hash(x, y, recursive, list_merge)\<close>. The \<^verbatim>\<open>for\<close> loop over \<^verbatim>\<open>iteritems(y)\<close>
  is \<open>merge_items\<close>: its first argument is the copy of \<open>x\<close> being filled, its second the
  entries of \<open>y\<close> still to visit. The body of the loop for a key that \<open>x\<close> already has is
  \<open>merge_entry\<close>: it returns the value the body stores in \<^verbatim>\<open>x[key]\<close>, or \<open>None\<close> where
  the body leaves \<^verbatim>\<open>x[key]\<close> alone (two lists under the policy keep). Every
  \<^verbatim>\<open>continue\<close> is the recursive call of \<open>merge_items\<close> on the rest.
\<close>

function merge_hash :: "val \<Rightarrow> val \<Rightarrow> bool \<Rightarrow> string \<Rightarrow> val error + val"
and merge_items :: "(string \<times> val) list \<Rightarrow> (string \<times> val) list \<Rightarrow> bool \<Rightarrow> string
                      \<Rightarrow> val error + (string \<times> val) list"
and merge_entry :: "val \<Rightarrow> val \<Rightarrow> bool \<Rightarrow> string \<Rightarrow> val error + val option"
where
  "merge_hash x y recursive list_merge =
     (if list_merge \<notin> set list_merge_values then Inl InvalidPolicy
      else case validate_mutable_mappings x y of
        Some e \<Rightarrow> Inl e
      | None \<Rightarrow>
          if py_eq x (VDict []) \<or> py_eq x y then Inr (VDict (dict_items y))
          else if \<not> recursive \<and> list_merge = ''replace''
            then Inr (VDict (dict_update (dict_items x) (dict_items y)))
          else (case merge_items (dict_items x) (dict_items y) recursive list_merge of
                  Inl e \<Rightarrow> Inl e
                | Inr x' \<Rightarrow> Inr (VDict x')))"
| "merge_items x [] recursive list_merge = Inr x"
| "merge_items x ((key, y_value) # rest) recursive list_merge =
     (case map_of x key of
        None \<Rightarrow> merge_items (dict_set key y_value x) rest recursive list_merge
      | Some x_value \<Rightarrow>
          (case merge_entry x_value y_value recursive list_merge of
             Inl e \<Rightarrow> Inl e
           | Inr None \<Rightarrow> merge_items x rest recursive list_merge
           | Inr (Some v) \<Rightarrow> merge_items (dict_set key v x) rest recursive list_merge))"
| "merge_entry x_value y_value recursive list_merge =
     (if is_mapping x_value \<and> is_mapping y_value then
        (if recursive then
           (case merge_hash x_value y_value recursive list_merge of
              Inl e \<Rightarrow> Inl e
            | Inr v \<Rightarrow> Inr (Some v))
         else Inr (Some y_value))
      else if is_mutable_sequence x_value \<and> is_mutable_sequence y_value then
        (let xl = list_elems x_value; yl = list_elems y_value in
         if list_merge = ''replace'' then Inr (Some y_value)
         else if list_merge = ''append'' then Inr (Some (VList (xl @ yl)))
         else if list_merge = ''prepend'' then Inr (Some (VList (yl @ xl)))
         else if list_merge = ''append_rp'' then
           Inr (Some (VList ([z \<leftarrow> xl. \<not> py_in z yl] @ yl)))
         else if list_merge = ''prepend_rp'' then
           Inr (Some (VList (yl @ [z \<leftarrow> xl. \<not> py_in z yl])))
         else Inr None)
      else Inr (Some y_value))"
  by pat_completeness auto
termination
proof (relation "measure (\<lambda>a. case a of
           Inl (x, y, r, lm) \<Rightarrow> 3 * size y + 1
         | Inr (Inl (x, ys, r, lm)) \<Rightarrow> 3 * size (VDict ys)
         | Inr (Inr (xv, yv, r, lm)) \<Rightarrow> 3 * size yv + 2)")
  fix x y :: val and recursive :: bool and list_merge :: string
  assume "validate_mutable_mappings x y = None"
  then obtain ys where "y = VDict ys"
    by (cases y) (auto simp: validate_mutable_mappings_def split: if_splits)
  then show "(Inr (Inl (dict_items x, dict_items y, recursive, list_merge)),
              Inl (x, y, recursive, list_merge))
       \<in> measure (\<lambda>a. case a of
           Inl (x, y, r, lm) \<Rightarrow> 3 * size y + 1
         | Inr (Inl (x, ys, r, lm)) \<Rightarrow> 3 * size (VDict ys)
         | Inr (Inr (xv, yv, r, lm)) \<Rightarrow> 3 * size yv + 2)" by simp
qed auto

declare merge_hash.simps [simp del]
declare merge_entry.simps [simp del]

text \<open>
  The same function with the two blocks marked ``to speed things up'' taken out: the
  policy check, the type check, the copy of \<open>x\<close> and the loop.
\<close>

function merge_hash_general :: "val \<Rightarrow> val \<Rightarrow> bool \<Rightarrow> string \<Rightarrow> val error + val"
and merge_items_general :: "(string \<times> val) list \<Rightarrow> (string \<times> val) list \<Rightarrow> bool \<Rightarrow> string
                      \<Rightarrow> val error + (string \<times> val) list"
and merge_entry_general :: "val \<Rightarrow> val \<Rightarrow> bool \<Rightarrow> string \<Rightarrow> val error + val option"
where
  "merge_hash_general x y recursive list_merge =
     (if list_merge \<notin> set list_merge_values then Inl InvalidPolicy
      else case validate_mutable_mappings x y of
        Some e \<Rightarrow> Inl e
      | None \<Rightarrow>
          (case merge_items_general (dict_items x) (dict_items y) recursive list_merge of
             Inl e \<Rightarrow> Inl e
           | Inr x' \<Rightarrow> Inr (VDict x')))"
| "merge_items_general x [] recursive list_merge = Inr x"
| "merge_items_general x ((key, y_value) # rest) recursive list_merge =
     (case map_of x key of
        None \<Rightarrow> merge_items_general (dict_set key y_value x) rest recursive list_merge
      | Some x_value \<Rightarrow>
          (case merge_entry_general x_value y_value recursive list_merge of
             Inl e \<Rightarrow> Inl e
           | Inr None \<Rightarrow> merge_items_general x rest recursive list_merge
           | Inr (Some v) \<Rightarrow> merge_items_general (dict_set key v x) rest recursive list_merge))"
| "merge_entry_general x_value y_value recursive list_merge =
     (if is_mapping x_value \<and> is_mapping y_value then
        (if recursive then
           (case merge_hash_general x_value y_value recursive list_merge of
              Inl e \<Rightarrow> Inl e
            | Inr v \<Rightarrow> Inr (Some v))
         else Inr (Some y_value))
      else if is_mutable_sequence x_value \<and> is_mutable_sequence y_value then
        (let xl = list_elems x_value; yl = list_elems y_value in
         if list_merge = ''replace'' then Inr (Some y_value)
         else if list_merge = ''append'' then Inr (Some (VList (xl @ yl)))
         else if list_merge = ''prepend'' then Inr (Some (VList (yl @ xl)))
         else if list_merge = ''append_rp'' then
           Inr (Some (VList ([z \<leftarrow> xl. \<not> py_in z yl] @ yl)))
         else if list_merge = ''prepend_rp'' then
           Inr (Some (VList (yl @ [z \<leftarrow> xl. \<not> py_in z yl])))
         else Inr None)
      else Inr (Some y_value))"
  by pat_completeness auto
termination
proof (relation "measure (\<lambda>a. case a of
           Inl (x, y, r, lm) \<Rightarrow> 3 * size y + 1
         | Inr (Inl (x, ys, r, lm)) \<Rightarrow> 3 * size (VDict ys)
         | Inr (Inr (xv, yv, r, lm)) \<Rightarrow> 3 * size yv + 2)")
  fix x y :: val and recursive :: bool and list_merge :: string
  assume "validate_mutable_mappings x y = None"
  then obtain ys where "y = VDict ys"
    by (cases y) (auto simp: validate_mutable_mappings_def split: if_splits)
  then show "(Inr (Inl (dict_items x, dict_items y, recursive, list_merge)),
              Inl (x, y, recursive, list_merge))
       \<in> measure (\<lambda>a. case a of
           Inl (x, y, r, lm) \<Rightarrow> 3 * size y + 1
         | Inr (Inl (x, ys, r, lm)) \<Rightarrow> 3 * size (VDict ys)
         | Inr (Inr (xv, yv, r, lm)) \<Rightarrow> 3 * size yv + 2)" by simp
qed auto

declare merge_hash_general.simps [simp del]
declare merge_entry_general.simps [simp del]

section \<open>Flattening\<close>

text \<open>
  Ansible's \<^verbatim>\<open>is_sequence\<close> (library code) accepts a sequence that is not a string; of the
  values here, the lists.
\<close>

fun is_sequence :: "val \<Rightarrow> bool" where
  "is_sequence (VList _) = True"
| "is_sequence _ = False"

text \<open>
  \<^verbatim>\<open>flatten(mylist, levels)\<close>. \<open>levels\<close> is \<open>None\<close> or an integer. The result list
  \<^verbatim>\<open>ret\<close> is what the visited elements contribute, in order; \<^verbatim>\<open>break\<close> ends the list.
\<close>

function flatten :: "val list \<Rightarrow> int option \<Rightarrow> val list" where
  "flatten [] levels = []"
| "flatten (element # rest) levels =
     (if py_in element [VNone, VStr ''None'', VStr ''null''] then []
      else if is_sequence element then
        (case levels of
           None \<Rightarrow> flatten (list_elems element) None @ flatten rest levels
         | Some l \<Rightarrow>
             if l \<ge> 1 then flatten (list_elems element) (Some (l - 1)) @ flatten rest levels
             else element # flatten rest levels)
      else element # flatten rest levels)"
  by pat_completeness auto
termination
proof (relation "measure (\<lambda>(mylist, levels). size_list size mylist)")
  fix element :: val and rest :: "val list" and levels :: "int option"
  assume "is_sequence element"
  then obtain es where "element = VList es" by (cases element) auto
  then show "((list_elems element, None), element # rest, levels)
       \<in> measure (\<lambda>(mylist, levels). size_list size mylist)" by simp
next
  fix element :: val and rest :: "val list" and levels :: "int option" and l :: int
  assume "is_sequence element"
  then obtain es where "element = VList es" by (cases element) auto
  then show "((list_elems element, Some (l - 1)), element # rest, levels)
       \<in> measure (\<lambda>(mylist, levels). size_list size mylist)" by simp
qed auto

section \<open>The driver\<close>






section \<open>The object store\<close>

text \<open>
  Whether \<^verbatim>\<open>merge_hash\<close> changes its operands, and whether its result is a new object,
  are questions about Python's objects, which the values above do not have. Here the
  dicts and lists live in a store, at addresses; a reference is a number, string, boolean or
  \<^verbatim>\<open>None\<close> (immutable, so held directly) or the address of a dict or list. Assignment to
  \<^verbatim>\<open>x[key]\<close> updates the store at the address of \<open>x\<close>; \<^verbatim>\<open>copy\<close>, \<^verbatim>\<open>+\<close> and a list
  comprehension allocate a new object at the next free address.
\<close>

type_synonym addr = nat

datatype ref = RNone | RBool bool | RInt int | RStr string | RObj addr

datatype obj = ODict "(string \<times> ref) list" | OList "ref list"

type_synonym store = "obj list"

definition lookup :: "store \<Rightarrow> addr \<Rightarrow> obj option" where
  "lookup h a = (if a < length h then Some (h ! a) else None)"

definition alloc :: "store \<Rightarrow> obj \<Rightarrow> addr \<times> store" where
  "alloc h ob = (length h, h @ [ob])"

text \<open>
  The value a reference stands for, read through the store down to depth \<open>n\<close>: the deep
  copy one compares against. \<open>None\<close> when the data is deeper than \<open>n\<close> or an address is
  not allocated.
\<close>

fun snapshot :: "nat \<Rightarrow> store \<Rightarrow> ref \<Rightarrow> val option"
and snapshot_list :: "nat \<Rightarrow> store \<Rightarrow> ref list \<Rightarrow> val list option"
and snapshot_items :: "nat \<Rightarrow> store \<Rightarrow> (string \<times> ref) list \<Rightarrow> (string \<times> val) list option"
where
  "snapshot n h RNone = Some VNone"
| "snapshot n h (RBool b) = Some (VBool b)"
| "snapshot n h (RInt i) = Some (VInt i)"
| "snapshot n h (RStr s) = Some (VStr s)"
| "snapshot 0 h (RObj a) = None"
| "snapshot (Suc n) h (RObj a) =
     (case lookup h a of
        None \<Rightarrow> None
      | Some (OList rs) \<Rightarrow> map_option VList (snapshot_list n h rs)
      | Some (ODict its) \<Rightarrow> map_option VDict (snapshot_items n h its))"
| "snapshot_list n h [] = Some []"
| "snapshot_list n h (r # rs) =
     (case snapshot n h r of
        None \<Rightarrow> None
      | Some v \<Rightarrow> map_option ((#) v) (snapshot_list n h rs))"
| "snapshot_items n h [] = Some []"
| "snapshot_items n h ((k, r) # its) =
     (case snapshot n h r of
        None \<Rightarrow> None
      | Some v \<Rightarrow> map_option ((#) (k, v)) (snapshot_items n h its))"

text \<open>The type tests, class names and contents, read from the store.\<close>

fun is_mapping_st :: "store \<Rightarrow> ref \<Rightarrow> bool" where
  "is_mapping_st h (RObj a) = (case lookup h a of Some (ODict _) \<Rightarrow> True | _ \<Rightarrow> False)"
| "is_mapping_st h _ = False"

fun is_mutable_sequence_st :: "store \<Rightarrow> ref \<Rightarrow> bool" where
  "is_mutable_sequence_st h (RObj a) = (case lookup h a of Some (OList _) \<Rightarrow> True | _ \<Rightarrow> False)"
| "is_mutable_sequence_st h _ = False"

fun class_name_st :: "store \<Rightarrow> ref \<Rightarrow> string" where
  "class_name_st h RNone = ''NoneType''"
| "class_name_st h (RBool _) = ''bool''"
| "class_name_st h (RInt _) = ''int''"
| "class_name_st h (RStr _) = ''str''"
| "class_name_st h (RObj a) =
     (case lookup h a of
        Some (OList _) \<Rightarrow> ''list''
      | Some (ODict _) \<Rightarrow> ''dict''
      | None \<Rightarrow> ''object'')"

fun dict_items_st :: "store \<Rightarrow> ref \<Rightarrow> (string \<times> ref) list" where
  "dict_items_st h (RObj a) = (case lookup h a of Some (ODict its) \<Rightarrow> its | _ \<Rightarrow> [])"
| "dict_items_st h _ = []"

fun list_elems_st :: "store \<Rightarrow> ref \<Rightarrow> ref list" where
  "list_elems_st h (RObj a) = (case lookup h a of Some (OList rs) \<Rightarrow> rs | _ \<Rightarrow> [])"
| "list_elems_st h _ = []"

text \<open>\<^verbatim>\<open>x[key] = v\<close> on the dict at address \<open>a\<close>.\<close>

definition setitem :: "store \<Rightarrow> addr \<Rightarrow> string \<Rightarrow> ref \<Rightarrow> store" where
  "setitem h a key v = h[a := ODict (dict_set key v (dict_items_st h (RObj a)))]"

definition validate_mutable_mappings_st :: "store \<Rightarrow> ref \<Rightarrow> ref \<Rightarrow> ref error option" where
  "validate_mutable_mappings_st h a b =
     (if \<not> (is_mapping_st h a \<and> is_mapping_st h b)
      then Some (TypeMismatch (class_name_st h a) (class_name_st h b) a b)
      else None)"

text \<open>
  \<^verbatim>\<open>a == b\<close> compares what the two references stand for; it fails where the data is
  deeper than the recursion budget.
\<close>

definition py_eq_st :: "nat \<Rightarrow> store \<Rightarrow> ref \<Rightarrow> ref \<Rightarrow> bool option" where
  "py_eq_st n h a b =
     (case snapshot n h a of
        None \<Rightarrow> None
      | Some va \<Rightarrow> (case snapshot n h b of None \<Rightarrow> None | Some vb \<Rightarrow> Some (py_eq va vb)))"

text \<open>\<^verbatim>\<open>[z for z in x_value if z not in y_value]\<close>.\<close>

fun remove_present :: "nat \<Rightarrow> store \<Rightarrow> ref list \<Rightarrow> ref list \<Rightarrow> ref list option" where
  "remove_present n h [] yl = Some []"
| "remove_present n h (z # xl) yl =
     (case snapshot n h z of
        None \<Rightarrow> None
      | Some vz \<Rightarrow>
          (case snapshot_list n h yl of
             None \<Rightarrow> None
           | Some vs \<Rightarrow>
               (case remove_present n h xl yl of
                  None \<Rightarrow> None
                | Some keep \<Rightarrow> Some (if py_in vz vs then keep else z # keep))))"

text \<open>
  \<^verbatim>\<open>merge_hash\<close> on the store, statement by statement. The first argument is the recursion
  budget: the interpreter raises \<^verbatim>\<open>RecursionError\<close> when the calls nest deeper. Each function
  returns its outcome and the store it leaves, also when it raises. \<open>merge_items_st\<close> is
  the loop: \<open>x'\<close> is the address of the copy of \<open>x\<close>, which the body reads and writes.
  Under the two ``remove present'' policies the list comprehension allocates a list, and the
  \<^verbatim>\<open>+\<close> a second one.
\<close>

function merge_hash_st :: "nat \<Rightarrow> store \<Rightarrow> ref \<Rightarrow> ref \<Rightarrow> bool \<Rightarrow> string
                            \<Rightarrow> (ref error + ref) \<times> store"
and merge_items_st :: "nat \<Rightarrow> store \<Rightarrow> addr \<Rightarrow> (string \<times> ref) list \<Rightarrow> bool \<Rightarrow> string
                            \<Rightarrow> (ref error + unit) \<times> store"
and merge_entry_st :: "nat \<Rightarrow> store \<Rightarrow> ref \<Rightarrow> ref \<Rightarrow> bool \<Rightarrow> string
                            \<Rightarrow> (ref error + ref option) \<times> store"
where
  "merge_hash_st 0 h x y recursive list_merge = (Inl RecursionError, h)"
| "merge_hash_st (Suc n) h x y recursive list_merge =
     (if list_merge \<notin> set list_merge_values then (Inl InvalidPolicy, h)
      else case validate_mutable_mappings_st h x y of
        Some e \<Rightarrow> (Inl e, h)
      | None \<Rightarrow>
          (case (if dict_items_st h x = [] then Some True else py_eq_st (Suc n) h x y) of
             None \<Rightarrow> (Inl RecursionError, h)
           | Some True \<Rightarrow>
               (case alloc h (ODict (dict_items_st h y)) of (a, h') \<Rightarrow> (Inr (RObj a), h'))
           | Some False \<Rightarrow>
               (case alloc h (ODict (dict_items_st h x)) of
                  (x', h') \<Rightarrow>
                    if \<not> recursive \<and> list_merge = ''replace''
                    then (Inr (RObj x'),
                          h'[x' := ODict (dict_update (dict_items_st h' (RObj x'))
                                                      (dict_items_st h' y))])
                    else (case merge_items_st n h' x' (dict_items_st h' y) recursive list_merge of
                            (Inl e, h'') \<Rightarrow> (Inl e, h'')
                          | (Inr _, h'') \<Rightarrow> (Inr (RObj x'), h'')))))"
| "merge_items_st n h x' [] recursive list_merge = (Inr (), h)"
| "merge_items_st n h x' ((key, y_value) # rest) recursive list_merge =
     (case map_of (dict_items_st h (RObj x')) key of
        None \<Rightarrow> merge_items_st n (setitem h x' key y_value) x' rest recursive list_merge
      | Some x_value \<Rightarrow>
          (case merge_entry_st n h x_value y_value recursive list_merge of
             (Inl e, h') \<Rightarrow> (Inl e, h')
           | (Inr None, h') \<Rightarrow> merge_items_st n h' x' rest recursive list_merge
           | (Inr (Some v), h') \<Rightarrow>
               merge_items_st n (setitem h' x' key v) x' rest recursive list_merge))"
| "merge_entry_st n h x_value y_value recursive list_merge =
     (if is_mapping_st h x_value \<and> is_mapping_st h y_value then
        (if recursive then
           (case merge_hash_st n h x_value y_value recursive list_merge of
              (Inl e, h') \<Rightarrow> (Inl e, h')
            | (Inr v, h') \<Rightarrow> (Inr (Some v), h'))
         else (Inr (Some y_value), h))
      else if is_mutable_sequence_st h x_value \<and> is_mutable_sequence_st h y_value then
        (let xl = list_elems_st h x_value; yl = list_elems_st h y_value in
         if list_merge = ''replace'' then (Inr (Some y_value), h)
         else if list_merge = ''append'' then
           (case alloc h (OList (xl @ yl)) of (a, h') \<Rightarrow> (Inr (Some (RObj a)), h'))
         else if list_merge = ''prepend'' then
           (case alloc h (OList (yl @ xl)) of (a, h') \<Rightarrow> (Inr (Some (RObj a)), h'))
         else if list_merge = ''append_rp'' then
           (case remove_present n h xl yl of
              None \<Rightarrow> (Inl RecursionError, h)
            | Some keep \<Rightarrow>
                (case alloc h (OList keep) of
                   (_, h') \<Rightarrow> (case alloc h' (OList (keep @ yl)) of
                                (a, h'') \<Rightarrow> (Inr (Some (RObj a)), h''))))
         else if list_merge = ''prepend_rp'' then
           (case remove_present n h xl yl of
              None \<Rightarrow> (Inl RecursionError, h)
            | Some keep \<Rightarrow>
                (case alloc h (OList keep) of
                   (_, h') \<Rightarrow> (case alloc h' (OList (yl @ keep)) of
                                (a, h'') \<Rightarrow> (Inr (Some (RObj a)), h''))))
         else (Inr None, h))
      else (Inr (Some y_value), h))"
  by pat_completeness auto
termination
  by (relation "measures
        [\<lambda>a. case a of
           Inl (n, h, x, y, r, lm) \<Rightarrow> 2 * n
         | Inr (Inl (n, h, x', ys, r, lm)) \<Rightarrow> 2 * n + 1
         | Inr (Inr (n, h, xv, yv, r, lm)) \<Rightarrow> 2 * n + 1,
         \<lambda>a. case a of
           Inl (n, h, x, y, r, lm) \<Rightarrow> 0
         | Inr (Inl (n, h, x', ys, r, lm)) \<Rightarrow> Suc (length ys)
         | Inr (Inr (n, h, xv, yv, r, lm)) \<Rightarrow> 0]") auto

declare merge_hash_st.simps [simp del]
declare merge_entry_st.simps [simp del]

text \<open>
  What a call may do to the store: \<open>frame N h h'\<close> says that \<open>h'\<close> has every address of
  \<open>h\<close> and holds the same objects as \<open>h\<close> at all addresses below \<open>N\<close>.
\<close>

definition frame :: "nat \<Rightarrow> store \<Rightarrow> store \<Rightarrow> bool" where
  "frame N h h' = (length h \<le> length h' \<and> take N h' = take N h)"

text \<open>
  A store with the specification's example: \<^verbatim>\<open>{'l': [1,2,3]}\<close> at address 1,
  \<^verbatim>\<open>{'l': [3,4]}\<close> at address 3, and an empty dict at address 4.
\<close>

definition ex_store :: store where
  "ex_store = [OList [RInt 1, RInt 2, RInt 3], ODict [(''l'', RObj 0)],
               OList [RInt 3, RInt 4], ODict [(''l'', RObj 2)], ODict []]"

text \<open>The finite map a document stands for: its keys and the value of each.\<close>

definition doc_map :: "val \<Rightarrow> (string \<rightharpoonup> val)" where
  "doc_map d = map_of (dict_items d)"




text \<open>
  To compare the two models: a store \<open>h'\<close> extends \<open>h\<close> off a set \<open>B\<close> of addresses when it
  keeps every object of \<open>h\<close> outside \<open>B\<close>; a reference is stable for a value when it stands
  for that value in every such extension. \<open>B\<close> holds the copies a running merge is still
  writing to.
\<close>

definition extends_off :: "addr set \<Rightarrow> store \<Rightarrow> store \<Rightarrow> bool" where
  "extends_off B h h' = (length h \<le> length h' \<and> (\<forall>a < length h. a \<notin> B \<longrightarrow> h' ! a = h ! a))"

definition stable :: "addr set \<Rightarrow> nat \<Rightarrow> store \<Rightarrow> ref \<Rightarrow> val \<Rightarrow> bool" where
  "stable B n h r v = (\<forall>h'. extends_off B h h' \<longrightarrow> snapshot n h' r = Some v)"

definition stable_list :: "addr set \<Rightarrow> nat \<Rightarrow> store \<Rightarrow> ref list \<Rightarrow> val list \<Rightarrow> bool" where
  "stable_list B n h rs vs = list_all2 (stable B n h) rs vs"

definition stable_items :: "addr set \<Rightarrow> nat \<Rightarrow> store \<Rightarrow> (string \<times> ref) list
                              \<Rightarrow> (string \<times> val) list \<Rightarrow> bool" where
  "stable_items B n h its acc =
     list_all2 (\<lambda>p q. fst q = fst p \<and> stable B n h (snd p) (snd q)) its acc"

section \<open>The list policies on the specification's example\<close>

text \<open>
  C3. For \<^verbatim>\<open>x = {'l': [1,2,3]}\<close> and \<^verbatim>\<open>y = {'l': [3,4]}\<close>, \<^verbatim>\<open>merge_hash(x, y)\<close> (with
  the default \<^verbatim>\<open>recursive=True\<close>) maps \<^verbatim>\<open>'l'\<close> to \<^verbatim>\<open>[3,4]\<close> under replace,
  \<^verbatim>\<open>[1,2,3]\<close> under keep, \<^verbatim>\<open>[1,2,3,3,4]\<close> under append, \<^verbatim>\<open>[3,4,1,2,3]\<close> under
  prepend, \<^verbatim>\<open>[1,2,3,4]\<close> under append\_rp and \<^verbatim>\<open>[3,4,1,2]\<close> under prepend\_rp.
\<close>

theorem list_policy_table:
  "merge_hash (VDict [(''l'', VList [VInt 1, VInt 2, VInt 3])])
              (VDict [(''l'', VList [VInt 3, VInt 4])]) True ''replace''
     = Inr (VDict [(''l'', VList [VInt 3, VInt 4])])
   \<and> merge_hash (VDict [(''l'', VList [VInt 1, VInt 2, VInt 3])])
              (VDict [(''l'', VList [VInt 3, VInt 4])]) True ''keep''
     = Inr (VDict [(''l'', VList [VInt 1, VInt 2, VInt 3])])
   \<and> merge_hash (VDict [(''l'', VList [VInt 1, VInt 2, VInt 3])])
              (VDict [(''l'', VList [VInt 3, VInt 4])]) True ''append''
     = Inr (VDict [(''l'', VList [VInt 1, VInt 2, VInt 3, VInt 3, VInt 4])])
   \<and> merge_hash (VDict [(''l'', VList [VInt 1, VInt 2, VInt 3])])
              (VDict [(''l'', VList [VInt 3, VInt 4])]) True ''prepend''
     = Inr (VDict [(''l'', VList [VInt 3, VInt 4, VInt 1, VInt 2, VInt 3])])
   \<and> merge_hash (VDict [(''l'', VList [VInt 1, VInt 2, VInt 3])])
              (VDict [(''l'', VList [VInt 3, VInt 4])]) True ''append_rp''
     = Inr (VDict [(''l'', VList [VInt 1, VInt 2, VInt 3, VInt 4])])
   \<and> merge_hash (VDict [(''l'', VList [VInt 1, VInt 2, VInt 3])])
              (VDict [(''l'', VList [VInt 3, VInt 4])]) True ''prepend_rp''
     = Inr (VDict [(''l'', VList [VInt 3, VInt 4, VInt 1, VInt 2])])"
  by (simp add: merge_hash.simps merge_entry.simps list_merge_values_def validate_mutable_mappings_def)

section \<open>Unfolding the merge\<close>

text \<open>
  \<open>merge_hash\<close> and \<open>merge_entry\<close> are unfolded by hand, one branch at a time: first the
  policy check, then the type check, then the body.
\<close>

lemma merge_hash_invalid_policy:
  "list_merge \<notin> set list_merge_values \<Longrightarrow> merge_hash x y recursive list_merge = Inl InvalidPolicy"
  by (subst merge_hash.simps) simp

lemma merge_hash_not_mappings:
  "list_merge \<in> set list_merge_values \<Longrightarrow> \<not> (is_mapping x \<and> is_mapping y) \<Longrightarrow>
   merge_hash x y recursive list_merge = Inl (TypeMismatch (class_name x) (class_name y) x y)"
  by (subst merge_hash.simps) (simp add: validate_mutable_mappings_def)

lemma merge_hash_mappings:
  "list_merge \<in> set list_merge_values \<Longrightarrow> is_mapping x \<Longrightarrow> is_mapping y \<Longrightarrow>
   merge_hash x y recursive list_merge =
     (if py_eq x (VDict []) \<or> py_eq x y then Inr (VDict (dict_items y))
      else if \<not> recursive \<and> list_merge = ''replace''
        then Inr (VDict (dict_update (dict_items x) (dict_items y)))
      else (case merge_items (dict_items x) (dict_items y) recursive list_merge of
              Inl e \<Rightarrow> Inl e
            | Inr x' \<Rightarrow> Inr (VDict x')))"
  by (subst merge_hash.simps) (simp add: validate_mutable_mappings_def)

lemma merge_entry_mappings:
  "is_mapping x_value \<Longrightarrow> is_mapping y_value \<Longrightarrow>
   merge_entry x_value y_value recursive list_merge =
     (if recursive then
        (case merge_hash x_value y_value recursive list_merge of
           Inl e \<Rightarrow> Inl e
         | Inr v \<Rightarrow> Inr (Some v))
      else Inr (Some y_value))"
  by (subst merge_entry.simps) simp

lemma merge_entry_not_mappings:
  "\<not> (is_mapping x_value \<and> is_mapping y_value) \<Longrightarrow>
   merge_entry x_value y_value recursive list_merge =
     (if is_mutable_sequence x_value \<and> is_mutable_sequence y_value then
        (if list_merge = ''replace'' then Inr (Some y_value)
         else if list_merge = ''append'' then
           Inr (Some (VList (list_elems x_value @ list_elems y_value)))
         else if list_merge = ''prepend'' then
           Inr (Some (VList (list_elems y_value @ list_elems x_value)))
         else if list_merge = ''append_rp'' then
           Inr (Some (VList ([z \<leftarrow> list_elems x_value. \<not> py_in z (list_elems y_value)]
                             @ list_elems y_value)))
         else if list_merge = ''prepend_rp'' then
           Inr (Some (VList (list_elems y_value
                             @ [z \<leftarrow> list_elems x_value. \<not> py_in z (list_elems y_value)])))
         else Inr None)
      else Inr (Some y_value))"
  by (subst merge_entry.simps) (auto simp add: Let_def)

lemma merge_total_aux:
  "(list_merge \<in> set list_merge_values \<longrightarrow> is_mapping x \<longrightarrow> is_mapping y \<longrightarrow>
      (\<exists>z. merge_hash x y recursive list_merge = Inr (VDict z)))"
  "(list_merge \<in> set list_merge_values \<longrightarrow>
      (\<exists>z. merge_items xs ys recursive list_merge = Inr z))"
  "(list_merge \<in> set list_merge_values \<longrightarrow>
      (\<exists>z. merge_entry xv yv recursive list_merge = Inr z))"
proof (induction x y recursive list_merge and xs ys recursive list_merge
         and xv yv recursive list_merge
       rule: merge_hash_merge_items_merge_entry.induct)
  case (1 x y recursive list_merge)
  show ?case
  proof (intro impI)
    assume lm: "list_merge \<in> set list_merge_values" and mx: "is_mapping x" and my: "is_mapping y"
    have v: "validate_mutable_mappings x y = None"
      using mx my by (simp add: validate_mutable_mappings_def)
    have nl: "\<not> list_merge \<notin> set list_merge_values" using lm by simp
    show "\<exists>z. merge_hash x y recursive list_merge = Inr (VDict z)"
    proof (cases "(py_eq x (VDict []) \<or> py_eq x y) \<or> (\<not> recursive \<and> list_merge = ''replace'')")
      case True
      then show ?thesis by (auto simp: merge_hash_mappings[OF lm mx my])
    next
      case False
      then have "\<exists>z. merge_items (dict_items x) (dict_items y) recursive list_merge = Inr z"
        using 1[OF nl v] lm by blast
      then show ?thesis using False by (auto simp: merge_hash_mappings[OF lm mx my])
    qed
  qed
next
  case (2 x recursive list_merge)
  then show ?case by simp
next
  case (3 x key y_value rest recursive list_merge)
  show ?case
  proof (intro impI)
    assume lm: "list_merge \<in> set list_merge_values"
    show "\<exists>z. merge_items x ((key, y_value) # rest) recursive list_merge = Inr z"
    proof (cases "map_of x key")
      case None
      with 3(1) lm show ?thesis by simp
    next
      case (Some x_value)
      from 3(2)[OF Some] lm obtain r where r: "merge_entry x_value y_value recursive list_merge = Inr r"
        by blast
      show ?thesis
      proof (cases r)
        case None
        with 3(3)[OF Some] r lm Some show ?thesis by simp
      next
        case (Some v)
        with 3(4)[OF \<open>map_of x key = Some x_value\<close>] r lm \<open>map_of x key = Some x_value\<close>
        show ?thesis by simp
      qed
    qed
  qed
next
  case (4 x_value y_value recursive list_merge)
  show ?case
  proof (intro impI)
    assume lm: "list_merge \<in> set list_merge_values"
    show "\<exists>z. merge_entry x_value y_value recursive list_merge = Inr z"
    proof (cases "is_mapping x_value \<and> is_mapping y_value")
      case True
      then have m: "is_mapping x_value" "is_mapping y_value" by simp_all
      show ?thesis
      proof (cases recursive)
        case True
        with 4 m lm
        obtain z where "merge_hash x_value y_value recursive list_merge = Inr (VDict z)"
          by blast
        then show ?thesis using True by (simp add: merge_entry_mappings[OF m])
      next
        case False
        then show ?thesis by (simp add: merge_entry_mappings[OF m])
      qed
    next
      case False
      then show ?thesis by (simp add: merge_entry_not_mappings)
    qed
  qed
qed


lemma merge_hash_total:
  "list_merge \<in> set list_merge_values \<Longrightarrow> is_mapping x \<Longrightarrow> is_mapping y \<Longrightarrow>
   \<exists>z. merge_hash x y recursive list_merge = Inr (VDict z)"
  using merge_total_aux(1) by blast

lemma keys_dict_set: "fst ` set (dict_set k v x) = insert k (fst ` set x)"
  by (induction k v x rule: dict_set.induct) (simp_all add: insert_commute)

lemma keys_dict_update: "fst ` set (dict_update x ys) = fst ` set x \<union> fst ` set ys"
proof (induction ys arbitrary: x)
  case Nil
  then show ?case by simp
next
  case (Cons p ys)
  obtain k v where p: "p = (k, v)" by (cases p)
  show ?case by (simp add: p Cons.IH keys_dict_set)
qed

lemma map_of_Some_key: "map_of x k = Some v \<Longrightarrow> k \<in> fst ` set x"
  by (metis domI dom_map_of_conv_image_fst)

lemma keys_merge_items:
  "merge_items x ys recursive list_merge = Inr z \<Longrightarrow> fst ` set z = fst ` set x \<union> fst ` set ys"
proof (induction ys arbitrary: x)
  case Nil
  then show ?case by simp
next
  case (Cons p rest)
  obtain key y_value where p: "p = (key, y_value)" by (cases p)
  show ?case
  proof (cases "map_of x key")
    case None
    with Cons.prems p have "merge_items (dict_set key y_value x) rest recursive list_merge = Inr z"
      by simp
    from Cons.IH[OF this] show ?thesis by (auto simp: p keys_dict_set)
  next
    case (Some x_value)
    then have kx: "key \<in> fst ` set x" by (rule map_of_Some_key)
    show ?thesis
    proof (cases "merge_entry x_value y_value recursive list_merge")
      case (Inl e)
      with Cons.prems p Some show ?thesis by simp
    next
      case (Inr r)
      show ?thesis
      proof (cases r)
        case None
        with Cons.prems p Some Inr have "merge_items x rest recursive list_merge = Inr z" by simp
        from Cons.IH[OF this] kx show ?thesis by (auto simp: p)
      next
        case (Some v)
        with Cons.prems p \<open>map_of x key = Some x_value\<close> Inr
        have "merge_items (dict_set key v x) rest recursive list_merge = Inr z" by simp
        from Cons.IH[OF this] show ?thesis by (auto simp: p keys_dict_set)
      qed
    qed
  qed
qed

lemma py_eq_items_keys: "py_eq_items xs ys \<Longrightarrow> fst ` set xs \<subseteq> fst ` set ys"
proof (induction xs)
  case Nil
  then show ?case by simp
next
  case (Cons p xs)
  obtain k v where p: "p = (k, v)" by (cases p)
  from Cons.prems p obtain w where w: "map_of ys k = Some w" and r: "py_eq_items xs ys"
    by (auto split: option.splits)
  from Cons.IH[OF r] map_of_Some_key[OF w] show ?case by (simp add: p)
qed

lemma py_eq_dict_keys:
  assumes "py_eq (VDict xs) (VDict ys)" and "distinct (map fst xs)"
  shows "fst ` set xs = fst ` set ys"
proof -
  from assms(1) have len: "length xs = length ys" and it: "py_eq_items xs ys" by simp_all
  have sub: "fst ` set xs \<subseteq> fst ` set ys" using it by (rule py_eq_items_keys)
  have "card (fst ` set ys) \<le> length ys"
    by (metis card_length length_map list.set_map)
  also have "\<dots> = card (fst ` set xs)"
    using assms(2) len by (metis distinct_card length_map list.set_map)
  finally show ?thesis using sub by (simp add: card_seteq)
qed

lemma py_eq_empty_dict: "py_eq (VDict xs) (VDict []) \<longleftrightarrow> xs = []"
  by (cases xs) auto

lemma keys_merge_hash:
  assumes lm: "list_merge \<in> set list_merge_values"
      and res: "merge_hash (VDict xs) (VDict ys) recursive list_merge = Inr (VDict z)"
      and dx: "distinct (map fst xs)"
  shows "fst ` set z = fst ` set xs \<union> fst ` set ys"
proof -
  note eq = merge_hash_mappings[OF lm, of "VDict xs" "VDict ys" recursive, simplified dict_items.simps is_mapping.simps]
  show ?thesis
  proof (cases "py_eq (VDict xs) (VDict []) \<or> py_eq (VDict xs) (VDict ys)")
    case True
    with res eq have z: "z = ys" by (simp del: py_eq.simps)
    from True show ?thesis
    proof
      assume "py_eq (VDict xs) (VDict [])"
      then have "xs = []" by (simp only: py_eq_empty_dict)
      with z show ?thesis by simp
    next
      assume "py_eq (VDict xs) (VDict ys)"
      from py_eq_dict_keys[OF this dx] z show ?thesis by simp
    qed
  next
    case False
    note nf = False
    show ?thesis
    proof (cases "\<not> recursive \<and> list_merge = ''replace''")
      case True
      with res eq nf have "z = dict_update xs ys" by (simp del: py_eq.simps)
      then show ?thesis by (simp add: keys_dict_update)
    next
      case False
      with res eq nf have "merge_items xs ys recursive list_merge = Inr z"
        by (auto simp del: py_eq.simps split: sum.splits)
      then show ?thesis by (rule keys_merge_items)
    qed
  qed
qed

section \<open>Errors of the merge\<close>

text \<open>
  C6. \<^verbatim>\<open>merge_hash\<close> raises the invalid-policy error if and only if \<^verbatim>\<open>list_merge\<close> is not
  one of the six recognized values. The check comes first: with an unrecognized value the
  outcome is this error whatever \<open>x\<close> and \<open>y\<close> are, and it is an error, not a mapping; in
  the object store the call raises before it allocates or writes anything, so the store it
  leaves is the store it was given.
\<close>

theorem invalid_policy_iff:
  "(merge_hash x y recursive list_merge = Inl InvalidPolicy)
     = (list_merge \<notin> set list_merge_values)
   \<and> (list_merge \<notin> set list_merge_values \<longrightarrow>
        merge_hash_st (Suc n) h a b recursive list_merge = (Inl InvalidPolicy, h))"
proof
  show "(merge_hash x y recursive list_merge = Inl InvalidPolicy)
     = (list_merge \<notin> set list_merge_values)"
  proof (cases "list_merge \<in> set list_merge_values")
    case False
    then show ?thesis by (simp add: merge_hash_invalid_policy)
  next
    case True
    show ?thesis
    proof (cases "is_mapping x \<and> is_mapping y")
      case False
      from merge_hash_not_mappings[OF True False] True show ?thesis by simp
    next
      case m: True
      from merge_hash_total[OF True, of x y recursive] m True show ?thesis by auto
    qed
  qed
  show "list_merge \<notin> set list_merge_values \<longrightarrow>
        merge_hash_st (Suc n) h a b recursive list_merge = (Inl InvalidPolicy, h)"
    by (simp add: merge_hash_st.simps)
qed

theorem invalid_policy_iff_witness:
  "merge_hash (VList [VInt 1, VInt 2]) (VDict [(''a'', VInt 1)]) True ''bogus'' = Inl InvalidPolicy
   \<and> merge_hash (VDict [(''a'', VInt 1)]) (VDict [(''a'', VInt 2)]) True ''keep'' \<noteq> Inl InvalidPolicy
   \<and> merge_hash_st (Suc 0) ex_store (RObj 1) (RObj 3) True ''bogus'' = (Inl InvalidPolicy, ex_store)"
  using invalid_policy_iff[of "VList [VInt 1, VInt 2]" "VDict [(''a'', VInt 1)]" True "''bogus''"
          0 ex_store "RObj 1" "RObj 3"]
        invalid_policy_iff[of "VDict [(''a'', VInt 1)]" "VDict [(''a'', VInt 2)]" True "''keep''"]
  by (simp add: list_merge_values_def)

text \<open>
  C7, as stated, fails. With an operand that is not a mapping and an unrecognized
  \<^verbatim>\<open>list_merge\<close>, the policy check fires first: the error raised is the invalid-policy
  one, and its message names the six policies, not the operands. And a value that is not a
  mapping, met below the top level, raises nothing: under the key \<^verbatim>\<open>'k'\<close> a dict against a
  list, and one level further down a dict against a number, are settled by the override of
  the last \<^verbatim>\<open>else\<close> branch, and the merge returns.
\<close>

theorem type_mismatch_counterexample:
  "\<not> is_mapping (VList [VInt 1, VInt 2])
   \<and> merge_hash (VList [VInt 1, VInt 2]) (VDict [(''a'', VInt 1)]) True ''bogus''
       = Inl InvalidPolicy
   \<and> merge_hash (VList [VInt 1, VInt 2]) (VDict [(''a'', VInt 1)]) True ''bogus''
       \<noteq> Inl (TypeMismatch ''list'' ''dict'' (VList [VInt 1, VInt 2]) (VDict [(''a'', VInt 1)]))
   \<and> message (\<lambda>v. None) (\<lambda>v. ''[1, 2]'') (InvalidPolicy :: val error)
       = ''merge_hash: 'list_merge' argument can only be equal to 'replace', 'keep', 'append', 'prepend', 'append_rp' or 'prepend_rp'' @ [CHR 0x27]
   \<and> \<not> is_mapping (VList [VInt 1])
   \<and> merge_hash (VDict [(''k'', VDict [(''a'', VInt 1)])]) (VDict [(''k'', VList [VInt 1])])
        True ''append''
       = Inr (VDict [(''k'', VList [VInt 1])])
   \<and> \<not> is_mapping (VInt 1)
   \<and> merge_hash (VDict [(''k'', VDict [(''a'', VDict [(''b'', VInt 1)])])])
                 (VDict [(''k'', VDict [(''a'', VInt 1)])]) True ''replace''
       = Inr (VDict [(''k'', VDict [(''a'', VInt 1)])])"
  by (simp add: merge_hash.simps merge_entry.simps list_merge_values_def
        validate_mutable_mappings_def)

text \<open>
  C7, amended. \<^verbatim>\<open>merge_hash\<close> fails with the type-mismatch error exactly when
  \<^verbatim>\<open>list_merge\<close> is recognized and one of the two operands of the call is not a mapping;
  the error then holds these two operands and their class names, and the message holds the
  class names of both and the serialization of both (\<^verbatim>\<open>json.dumps\<close>, or \<^verbatim>\<open>to_native\<close>
  where that raises). With an unrecognized \<^verbatim>\<open>list_merge\<close> the error is the invalid-policy
  one, whatever the operands. With a recognized \<^verbatim>\<open>list_merge\<close> and two mappings the call
  returns a mapping, whatever the nested values are: the loop body, run on any pair of
  nested values \<open>x_value\<close> and \<open>y_value\<close>, never raises the type-mismatch error, since it
  calls \<^verbatim>\<open>merge_hash\<close> again only on two mappings, where the check passes.
\<close>

theorem type_mismatch_only_at_top_level:
  "((\<exists>ca cb a b. merge_hash x y recursive list_merge = Inl (TypeMismatch ca cb a b))
      = (list_merge \<in> set list_merge_values \<and> \<not> (is_mapping x \<and> is_mapping y)))
   \<and> (list_merge \<in> set list_merge_values \<and> \<not> (is_mapping x \<and> is_mapping y) \<longrightarrow>
        merge_hash x y recursive list_merge
          = Inl (TypeMismatch (class_name x) (class_name y) x y))
   \<and> (list_merge \<notin> set list_merge_values \<longrightarrow>
        merge_hash x y recursive list_merge = Inl InvalidPolicy)
   \<and> (list_merge \<in> set list_merge_values \<and> is_mapping x \<and> is_mapping y \<longrightarrow>
        (\<exists>z. merge_hash x y recursive list_merge = Inr (VDict z)))
   \<and> (\<forall>ca cb a b. merge_entry x_value y_value recursive list_merge
                      \<noteq> Inl (TypeMismatch ca cb a b))
   \<and> message dumps to_native (TypeMismatch (class_name x) (class_name y) x y)
       = ''failed to combine variables, expected dicts but got a ''
         @ [CHR 0x27] @ class_name x @ [CHR 0x27] @ '' and a ''
         @ [CHR 0x27] @ class_name y @ [CHR 0x27] @ '': '' @ [CHR 0x0A]
         @ myvar dumps to_native x @ [CHR 0x0A] @ myvar dumps to_native y"
proof (intro conjI)
  show "(\<exists>ca cb a b. merge_hash x y recursive list_merge = Inl (TypeMismatch ca cb a b))
      = (list_merge \<in> set list_merge_values \<and> \<not> (is_mapping x \<and> is_mapping y))"
  proof (cases "list_merge \<in> set list_merge_values")
    case False
    then show ?thesis by (simp add: merge_hash_invalid_policy)
  next
    case True
    show ?thesis
    proof (cases "is_mapping x \<and> is_mapping y")
      case False
      from merge_hash_not_mappings[OF True False] True False show ?thesis by simp
    next
      case m: True
      from merge_hash_total[OF True, of x y recursive] m True show ?thesis by auto
    qed
  qed
  show "list_merge \<in> set list_merge_values \<and> \<not> (is_mapping x \<and> is_mapping y) \<longrightarrow>
        merge_hash x y recursive list_merge
          = Inl (TypeMismatch (class_name x) (class_name y) x y)"
    by (simp add: merge_hash_not_mappings)
  show "list_merge \<notin> set list_merge_values \<longrightarrow>
        merge_hash x y recursive list_merge = Inl InvalidPolicy"
    by (simp add: merge_hash_invalid_policy)
  show "list_merge \<in> set list_merge_values \<and> is_mapping x \<and> is_mapping y \<longrightarrow>
        (\<exists>z. merge_hash x y recursive list_merge = Inr (VDict z))"
    by (simp add: merge_hash_total)
  show "\<forall>ca cb a b. merge_entry x_value y_value recursive list_merge
                      \<noteq> Inl (TypeMismatch ca cb a b)"
  proof (cases "list_merge \<in> set list_merge_values")
    case True
    with merge_total_aux(3)[of list_merge x_value y_value recursive]
    obtain out where "merge_entry x_value y_value recursive list_merge = Inr out" by blast
    then show ?thesis by simp
  next
    case False
    show ?thesis
    proof (cases "is_mapping x_value \<and> is_mapping y_value")
      case True
      then show ?thesis
        by (simp add: merge_entry_mappings merge_hash_invalid_policy[OF False])
    next
      case nm: False
      show ?thesis by (simp add: merge_entry_not_mappings[OF nm])
    qed
  qed
  show "message dumps to_native (TypeMismatch (class_name x) (class_name y) x y)
       = ''failed to combine variables, expected dicts but got a ''
         @ [CHR 0x27] @ class_name x @ [CHR 0x27] @ '' and a ''
         @ [CHR 0x27] @ class_name y @ [CHR 0x27] @ '': '' @ [CHR 0x0A]
         @ myvar dumps to_native x @ [CHR 0x0A] @ myvar dumps to_native y"
    by simp
qed

theorem type_mismatch_only_at_top_level_witness:
  "merge_hash (VList [VInt 1, VInt 2]) (VDict [(''a'', VInt 1)]) True ''replace''
     = Inl (TypeMismatch ''list'' ''dict'' (VList [VInt 1, VInt 2]) (VDict [(''a'', VInt 1)]))
   \<and> message (\<lambda>v. None) (\<lambda>v. ''?'')
        (TypeMismatch ''list'' ''dict'' (VList [VInt 1, VInt 2]) (VDict [(''a'', VInt 1)]))
       = ''failed to combine variables, expected dicts but got a 'list' and a 'dict': ''
         @ [CHR 0x0A] @ ''?'' @ [CHR 0x0A] @ ''?''
   \<and> merge_hash (VList [VInt 1, VInt 2]) (VDict [(''a'', VInt 1)]) True ''bogus''
       = Inl InvalidPolicy
   \<and> (\<exists>z. merge_hash (VDict [(''k'', VDict [(''a'', VInt 1)])])
                      (VDict [(''k'', VList [VInt 1])]) True ''append'' = Inr (VDict z))
   \<and> (\<forall>ca cb a b. merge_entry (VDict [(''a'', VInt 1)]) (VList [VInt 1]) True ''append''
                      \<noteq> Inl (TypeMismatch ca cb a b))"
  using type_mismatch_only_at_top_level[of "VList [VInt 1, VInt 2]" "VDict [(''a'', VInt 1)]"
          True "''replace''" "VDict [(''a'', VInt 1)]" "VList [VInt 1]"
          "\<lambda>v. None" "\<lambda>v. ''?''"]
        type_mismatch_only_at_top_level[of "VList [VInt 1, VInt 2]" "VDict [(''a'', VInt 1)]"
          True "''bogus''" "VDict [(''a'', VInt 1)]" "VList [VInt 1]"
          "\<lambda>v. None" "\<lambda>v. ''?''"]
        type_mismatch_only_at_top_level[of "VDict [(''k'', VDict [(''a'', VInt 1)])]"
          "VDict [(''k'', VList [VInt 1])]"
          True "''append''" "VDict [(''a'', VInt 1)]" "VList [VInt 1]"
          "\<lambda>v. None" "\<lambda>v. ''?''"]
  by (simp add: list_merge_values_def myvar_def)

section \<open>Keys of the result\<close>

text \<open>
  C9. For valid mappings \<open>x\<close> and \<open>y\<close> and every policy, \<^verbatim>\<open>merge_hash\<close> returns a mapping
  whose key set is the union of the key sets of \<open>x\<close> and \<open>y\<close>.
\<close>

theorem key_set_union:
  assumes "list_merge \<in> set list_merge_values"
      and "is_mapping x" and "valid x" and "is_mapping y" and "valid y"
  shows "\<exists>z. merge_hash x y recursive list_merge = Inr (VDict z)
           \<and> set (map fst z) = set (map fst (dict_items x)) \<union> set (map fst (dict_items y))"
proof -
  obtain xs where xs: "x = VDict xs" using assms(2) by (cases x) auto
  obtain ys where ys: "y = VDict ys" using assms(4) by (cases y) auto
  from merge_hash_total[OF assms(1,2,4), of recursive]
  obtain z where z: "merge_hash x y recursive list_merge = Inr (VDict z)" by blast
  have "distinct (map fst xs)" using assms(3) xs by simp
  from keys_merge_hash[OF assms(1) z[unfolded xs ys] this] z xs ys
  show ?thesis by simp
qed

theorem key_set_union_witness:
  "\<exists>z. merge_hash (VDict [(''a'', VInt 1), (''l'', VList [VInt 1])])
                   (VDict [(''l'', VList [VInt 2]), (''b'', VDict [])]) True ''append''
          = Inr (VDict z)
        \<and> set (map fst z) = {''a'', ''l'', ''b''}"
proof -
  have "set (map fst [(''a'', VInt 1), (''l'', VList [VInt 1])])
          \<union> set (map fst [(''l'', VList [VInt 2]), (''b'', VDict [])]) = {''a'', ''l'', ''b''}"
    by auto
  then show ?thesis
    using key_set_union[of "''append''" "VDict [(''a'', VInt 1), (''l'', VList [VInt 1])]"
            "VDict [(''l'', VList [VInt 2]), (''b'', VDict [])]" True]
    by (simp add: list_merge_values_def)
qed

section \<open>Where flattening stops\<close>

lemma flatten_append_marker:
  "py_in s [VNone, VStr ''None'', VStr ''null''] \<Longrightarrow>
   flatten (pre @ s # post) levels = flatten pre levels"
  by (induction pre) (auto split: option.splits)

text \<open>
  C4. \<^verbatim>\<open>flatten\<close> walks the elements in order and, at an element equal to \<^verbatim>\<open>None\<close>,
  \<^verbatim>\<open>'None'\<close> or \<^verbatim>\<open>'null'\<close>, stops: the result is what the elements before it gave, and
  the marker and everything after it are dropped. On the specification's example,
  \<^verbatim>\<open>flatten([1,[2,[3,4]],None,5], levels=1)\<close> is \<^verbatim>\<open>[1,2,[3,4]]\<close>.
\<close>

theorem flatten_stops_at_marker:
  "py_in s [VNone, VStr ''None'', VStr ''null''] \<Longrightarrow>
   flatten (pre @ s # post) levels = flatten pre levels
   \<and> flatten [VInt 1, VList [VInt 2, VList [VInt 3, VInt 4]], VNone, VInt 5] (Some 1)
       = [VInt 1, VInt 2, VList [VInt 3, VInt 4]]"
  by (simp add: flatten_append_marker)

theorem flatten_stops_at_marker_witness:
  "flatten ([VInt 1, VList [VInt 2]] @ VStr ''null'' # [VInt 5, VList [VInt 6]]) None
     = [VInt 1, VInt 2]
   \<and> flatten [VInt 1, VList [VInt 2, VList [VInt 3, VInt 4]], VNone, VInt 5] (Some 1)
       = [VInt 1, VInt 2, VList [VInt 3, VInt 4]]"
  using flatten_stops_at_marker[of "VStr ''null''" "[VInt 1, VList [VInt 2]]"
          "[VInt 5, VList [VInt 6]]" None]
  by simp

text \<open>
  C10. A marker inside a nested list that \<^verbatim>\<open>flatten\<close> descends into ends the flattening of
  that nested list only: the elements of the outer list after it are still visited.
  \<^verbatim>\<open>flatten([[1, None, 2], 3], levels=1)\<close> is \<^verbatim>\<open>[1, 3]\<close>.
\<close>

theorem flatten_nested_marker:
  "py_in s [VNone, VStr ''None'', VStr ''null''] \<Longrightarrow> 1 \<le> l \<Longrightarrow>
   flatten (VList (pre @ s # post) # rest) (Some l)
     = flatten pre (Some (l - 1)) @ flatten rest (Some l)
   \<and> flatten (VList (pre @ s # post) # rest) None = flatten pre None @ flatten rest None
   \<and> flatten [VList [VInt 1, VNone, VInt 2], VInt 3] (Some 1) = [VInt 1, VInt 3]"
  by (simp add: flatten_append_marker)

theorem flatten_nested_marker_witness:
  "flatten (VList ([VInt 1] @ VNone # [VInt 2]) # [VInt 3]) (Some 1) = [VInt 1, VInt 3]
   \<and> flatten (VList ([VInt 1] @ VNone # [VInt 2]) # [VInt 3]) None = [VInt 1, VInt 3]
   \<and> flatten [VList [VInt 1, VNone, VInt 2], VInt 3] (Some 1) = [VInt 1, VInt 3]"
  using flatten_nested_marker[of VNone 1 "[VInt 1]" "[VInt 2]" "[VInt 3]"]
  by simp

section \<open>The two fold directions\<close>








lemma py_eq_items_intro:
  "(\<And>k v. (k, v) \<in> set xs \<Longrightarrow> \<exists>w. map_of ys k = Some w \<and> py_eq v w) \<Longrightarrow> py_eq_items xs ys"
proof (induction xs)
  case Nil
  then show ?case by simp
next
  case (Cons p xs)
  obtain k v where p: "p = (k, v)" by (cases p)
  from Cons.prems[of k v] p obtain w where "map_of ys k = Some w" "py_eq v w" by auto
  moreover have "py_eq_items xs ys" using Cons.prems by (intro Cons.IH) auto
  ultimately show ?case by (simp add: p)
qed

lemma py_eq_refl_aux:
  "valid v \<longrightarrow> py_eq v v"
  "valid_list vs \<longrightarrow> py_eq_list vs vs"
  "valid_items its \<longrightarrow> (\<forall>(k, v) \<in> set its. py_eq v v)"
proof (induction v and vs and its rule: valid_valid_list_valid_items.induct)
  case (6 its)
  show ?case
  proof
    assume v: "valid (VDict its)"
    then have d: "distinct (map fst its)" and vi: "valid_items its" by simp_all
    have "py_eq_items its its"
    proof (rule py_eq_items_intro)
      fix k v assume m: "(k, v) \<in> set its"
      then have "map_of its k = Some v" using d by simp
      moreover have "py_eq v v" using 6 vi m by auto
      ultimately show "\<exists>w. map_of its k = Some w \<and> py_eq v w" by blast
    qed
    then show "py_eq (VDict its) (VDict its)" by simp
  qed
qed auto

lemma py_eq_refl: "valid v \<Longrightarrow> py_eq v v"
  using py_eq_refl_aux(1) by blast








lemma foldr_map_add_base:
  "foldr (\<lambda>d m. doc_map d ++ m) ds base = foldr (\<lambda>d m. doc_map d ++ m) ds Map.empty ++ base"
  by (induction ds) simp_all




section \<open>The fast paths\<close>

text \<open>
  Two of the three shortcuts do agree with the loop: \<^verbatim>\<open>x.update(y)\<close> under
  \<^verbatim>\<open>recursive=False\<close> and replace, and the copy of \<open>y\<close> when \<open>x\<close> is empty.
\<close>

lemma merge_entry_general_plain_replace:
  "merge_entry_general x_value y_value False ''replace'' = Inr (Some y_value)"
  by (subst merge_entry_general.simps) (simp add: Let_def)

lemma update_fast_path_agrees:
  "merge_items_general x ys False ''replace'' = Inr (dict_update x ys)"
proof (induction ys arbitrary: x)
  case Nil
  then show ?case by simp
next
  case (Cons p ys)
  obtain key y_value where p: "p = (key, y_value)" by (cases p)
  show ?case
    by (cases "map_of x key") (simp_all add: p Cons.IH merge_entry_general_plain_replace)
qed

lemma dict_set_new_key: "map_of x k = None \<Longrightarrow> dict_set k v x = x @ [(k, v)]"
  by (induction k v x rule: dict_set.induct) (auto split: if_splits)

lemma merge_items_general_new_keys:
  "distinct (map fst ys) \<Longrightarrow> fst ` set x \<inter> fst ` set ys = {} \<Longrightarrow>
   merge_items_general x ys recursive list_merge = Inr (x @ ys)"
proof (induction ys arbitrary: x)
  case Nil
  then show ?case by simp
next
  case (Cons p ys)
  obtain key y_value where p: "p = (key, y_value)" by (cases p)
  from Cons.prems p have none: "map_of x key = None"
    by (auto simp: map_of_eq_None_iff)
  have d: "distinct (map fst ys)" using Cons.prems(1) by simp
  have "fst ` set (x @ [(key, y_value)]) \<inter> fst ` set ys = {}"
    using Cons.prems p by auto
  from Cons.IH[OF d this] show ?case
    by (simp add: p none dict_set_new_key)
qed

lemma empty_fast_path_agrees:
  "list_merge \<in> set list_merge_values \<Longrightarrow> distinct (map fst ys) \<Longrightarrow>
   merge_hash_general (VDict []) (VDict ys) recursive list_merge = Inr (VDict ys)"
  by (subst merge_hash_general.simps)
     (simp add: validate_mutable_mappings_def merge_items_general_new_keys)

text \<open>
  C2. The comment above the first fast path says that the \<^verbatim>\<open>if\<close> can be removed without
  impact on the function except performance. For \<^verbatim>\<open>x = y = {'l': [1]}\<close> under the policy
  append it cannot: \<^verbatim>\<open>merge_hash\<close> returns \<^verbatim>\<open>{'l': [1]}\<close> through the \<^verbatim>\<open>x == y\<close> path,
  and the loop without the fast paths returns \<^verbatim>\<open>{'l': [1, 1]}\<close>.
\<close>

theorem equal_operands_fast_path_differs:
  "merge_hash (VDict [(''l'', VList [VInt 1])]) (VDict [(''l'', VList [VInt 1])]) True ''append''
     = Inr (VDict [(''l'', VList [VInt 1])])
   \<and> merge_hash_general (VDict [(''l'', VList [VInt 1])]) (VDict [(''l'', VList [VInt 1])])
        True ''append''
     = Inr (VDict [(''l'', VList [VInt 1, VInt 1])])
   \<and> \<not> py_eq (VDict [(''l'', VList [VInt 1])]) (VDict [(''l'', VList [VInt 1, VInt 1])])"
  by (simp add: merge_hash.simps merge_hash_general.simps merge_entry_general.simps
        list_merge_values_def validate_mutable_mappings_def)

section \<open>The store after a merge\<close>

text \<open>
  On the specification's example the two models agree under each of the six policies: the
  value read from the store for the result is the value \<open>merge_hash\<close> returns.
\<close>

lemma store_agrees_on_example:
  "map (\<lambda>lm. case merge_hash_st (Suc (Suc (Suc 0))) ex_store (RObj 1) (RObj 3) True lm of
               (Inl e, h') \<Rightarrow> None
             | (Inr r, h') \<Rightarrow> map_option Inr (snapshot (Suc (Suc 0)) h' r)) list_merge_values
   = map (\<lambda>lm. Some (merge_hash (VDict [(''l'', VList [VInt 1, VInt 2, VInt 3])])
                                (VDict [(''l'', VList [VInt 3, VInt 4])]) True lm))
       list_merge_values"
  by (simp add: merge_hash_st.simps merge_entry_st.simps ex_store_def lookup_def alloc_def
          setitem_def py_eq_st_def validate_mutable_mappings_st_def list_merge_values_def
          Let_def eval_nat_numeral merge_hash.simps merge_entry.simps
          validate_mutable_mappings_def)

lemma frame_refl: "frame N h h"
  by (simp add: frame_def)

lemma frame_trans: "frame N h h' \<Longrightarrow> frame N h' h'' \<Longrightarrow> frame N h h''"
  by (simp add: frame_def)

lemma frame_alloc: "N \<le> length h \<Longrightarrow> alloc h ob = (a, h') \<Longrightarrow> frame N h h'"
  by (auto simp: frame_def alloc_def)

lemma frame_update: "N \<le> a \<Longrightarrow> frame N h (h[a := ob])"
  by (simp add: frame_def)

lemma frame_setitem: "N \<le> a \<Longrightarrow> frame N h (setitem h a key v)"
  by (simp add: frame_def setitem_def)

lemma frame_length: "frame N h h' \<Longrightarrow> N \<le> length h \<Longrightarrow> N \<le> length h'"
  by (simp add: frame_def)


lemma frame_prefix:
  assumes "N \<le> length h" and "length h \<le> length h'" and "take (length h) h' = h"
  shows "frame N h h'"
proof -
  have "take N (take (length h) h') = take N h'"
    using assms(1) by (simp add: min.absorb1)
  then have "take N h = take N h'" by (simp only: assms(3))
  then show ?thesis using assms(2) by (simp add: frame_def)
qed

lemma alloc_addr: "alloc h ob = (a, h') \<Longrightarrow> a = length h \<and> h' = h @ [ob]"
  by (auto simp: alloc_def)

lemma frame_aux:
  "N \<le> length h \<longrightarrow> frame N h (snd (merge_hash_st n h x y recursive list_merge))"
  "N \<le> length h \<and> N \<le> x' \<longrightarrow> frame N h (snd (merge_items_st n h x' ys recursive list_merge))"
  "N \<le> length h \<longrightarrow> frame N h (snd (merge_entry_st n h xv yv recursive list_merge))"
proof (induction n h x y recursive list_merge and n h x' ys recursive list_merge
         and n h xv yv recursive list_merge
       rule: merge_hash_st_merge_items_st_merge_entry_st.induct)
  case (1 h x y recursive list_merge)
  show ?case by (simp add: merge_hash_st.simps frame_refl)
next
  case (2 n h x y recursive list_merge)
  show ?case
  proof
    assume N: "N \<le> length h"
    let ?res = "merge_hash_st (Suc n) h x y recursive list_merge"
    show "frame N h (snd ?res)"
    proof (cases "list_merge \<in> set list_merge_values
                  \<and> validate_mutable_mappings_st h x y = None")
      case False
      then have "snd ?res = h"
        by (auto simp: merge_hash_st.simps split: option.splits)
      then show ?thesis by (simp add: frame_refl)
    next
      case True
      note ok = True
      show ?thesis
      proof (cases "if dict_items_st h x = [] then Some True else py_eq_st (Suc n) h x y")
        case None
        with ok have "snd ?res = h" by (simp add: merge_hash_st.simps)
        then show ?thesis by (simp add: frame_refl)
      next
        case (Some fast)
        show ?thesis
        proof (cases fast)
          case True
          with ok Some have "snd ?res = h @ [ODict (dict_items_st h y)]"
            by (simp add: merge_hash_st.simps alloc_def)
          then show ?thesis using N by (simp add: frame_def)
        next
          case False
          obtain xa ha where al: "(xa, ha) = alloc h (ODict (dict_items_st h x))"
            by (simp add: alloc_def)
          then have xa: "xa = length h" and ha: "ha = h @ [ODict (dict_items_st h x)]"
            by (simp_all add: alloc_def)
          have f1: "frame N h ha" using N ha by (simp add: frame_def)
          show ?thesis
          proof (cases "\<not> recursive \<and> list_merge = ''replace''")
            case True
            with ok Some False al[symmetric]
            have "snd ?res = ha[xa := ODict (dict_update (dict_items_st ha (RObj xa))
                                                      (dict_items_st ha y))]"
              by (simp add: merge_hash_st.simps)
            moreover have "frame N ha (ha[xa := ODict (dict_update (dict_items_st ha (RObj xa))
                                                      (dict_items_st ha y))])"
              using N xa by (intro frame_update) simp
            ultimately show ?thesis using f1 by (auto intro: frame_trans)
          next
            case nr: False
            have nl: "\<not> list_merge \<notin> set list_merge_values" using ok by simp
            from ok have v: "validate_mutable_mappings_st h x y = None" by simp
            have Na: "N \<le> length ha \<and> N \<le> xa" using N xa ha by simp
            have ff: "fast = False" using False by simp
            from 2[OF nl v Some ff al nr] Na
            have f2: "frame N ha (snd (merge_items_st n ha xa (dict_items_st ha y) recursive list_merge))"
              by simp
            from ok Some False al[symmetric] nr
            have "snd ?res = snd (merge_items_st n ha xa (dict_items_st ha y) recursive list_merge)"
              by (auto simp: merge_hash_st.simps split: prod.splits sum.splits)
            with f1 f2 show ?thesis by (auto intro: frame_trans)
          qed
        qed
      qed
    qed
  qed
next
  case (3 n h x' recursive list_merge)
  show ?case by (simp add: frame_refl)
next
  case (4 n h x' key y_value rest recursive list_merge)
  show ?case
  proof
    assume N: "N \<le> length h \<and> N \<le> x'"
    let ?res = "merge_items_st n h x' ((key, y_value) # rest) recursive list_merge"
    show "frame N h (snd ?res)"
    proof (cases "map_of (dict_items_st h (RObj x')) key")
      case None
      have f1: "frame N h (setitem h x' key y_value)" using N by (intro frame_setitem) simp
      have "N \<le> length (setitem h x' key y_value) \<and> N \<le> x'"
        using N by (simp add: setitem_def)
      with 4(1)[OF None] have "frame N (setitem h x' key y_value)
          (snd (merge_items_st n (setitem h x' key y_value) x' rest recursive list_merge))"
        by simp
      with f1 None show ?thesis by (auto intro: frame_trans)
    next
      case (Some x_value)
      obtain out h1 where e: "(out, h1) = merge_entry_st n h x_value y_value recursive list_merge"
        by (metis surj_pair)
      from 4(2)[OF Some] N e have f1: "frame N h h1" by (metis snd_conv)
      then have N1: "N \<le> length h1" using N by (simp add: frame_def)
      show ?thesis
      proof (cases out)
        case (Inl err)
        with Some e[symmetric] have "snd ?res = h1" by simp
        with f1 show ?thesis by simp
      next
        case (Inr b)
        show ?thesis
        proof (cases b)
          case None
          from 4(3)[OF Some e Inr None] N N1
          have "frame N h1 (snd (merge_items_st n h1 x' rest recursive list_merge))" by simp
          moreover have "snd ?res = snd (merge_items_st n h1 x' rest recursive list_merge)"
            using Some e[symmetric] Inr None by simp
          ultimately show ?thesis using f1 by (auto intro: frame_trans)
        next
          case (Some v)
          have f2: "frame N h1 (setitem h1 x' key v)" using N by (intro frame_setitem) simp
          have "N \<le> length (setitem h1 x' key v) \<and> N \<le> x'"
            using N N1 by (simp add: setitem_def)
          with 4(4)[OF \<open>map_of (dict_items_st h (RObj x')) key = Some x_value\<close> e Inr Some]
          have "frame N (setitem h1 x' key v)
                  (snd (merge_items_st n (setitem h1 x' key v) x' rest recursive list_merge))"
            by simp
          moreover have "snd ?res
              = snd (merge_items_st n (setitem h1 x' key v) x' rest recursive list_merge)"
            using \<open>map_of (dict_items_st h (RObj x')) key = Some x_value\<close> e[symmetric] Inr Some
            by simp
          ultimately show ?thesis using f1 f2 by (auto intro: frame_trans)
        qed
      qed
    qed
  qed
next
  case (5 n h x_value y_value recursive list_merge)
  show ?case
  proof
    assume N: "N \<le> length h"
    let ?res = "merge_entry_st n h x_value y_value recursive list_merge"
    show "frame N h (snd ?res)"
    proof (cases "is_mapping_st h x_value \<and> is_mapping_st h y_value")
      case True
      show ?thesis
      proof (cases recursive)
        case r: True
        from 5[OF True r] N
        have "frame N h (snd (merge_hash_st n h x_value y_value recursive list_merge))" by simp
        moreover have "snd ?res = snd (merge_hash_st n h x_value y_value recursive list_merge)"
          using True r by (auto simp: merge_entry_st.simps split: prod.splits sum.splits)
        ultimately show ?thesis by simp
      next
        case False
        with True have "snd ?res = h" by (simp add: merge_entry_st.simps)
        then show ?thesis by (simp add: frame_refl)
      qed
    next
      case False
      then have "length h \<le> length (snd ?res) \<and> take (length h) (snd ?res) = h"
        by (auto simp: merge_entry_st.simps Let_def alloc_def split: option.splits)
      then show ?thesis using N by (intro frame_prefix) simp_all
    qed
  qed
qed


lemma lookup_frame:
  "length h \<le> length h' \<Longrightarrow> take (length h) h' = h \<Longrightarrow> a < length h \<Longrightarrow> lookup h' a = lookup h a"
  by (metis lookup_def nth_take order_less_le_trans)

lemma snapshot_frame_aux:
  "length h \<le> length h' \<and> take (length h) h' = h \<longrightarrow>
     snapshot n h r = Some v \<longrightarrow> snapshot n h' r = Some v"
  "length h \<le> length h' \<and> take (length h) h' = h \<longrightarrow>
     snapshot_list n h rs = Some vs \<longrightarrow> snapshot_list n h' rs = Some vs"
  "length h \<le> length h' \<and> take (length h) h' = h \<longrightarrow>
     snapshot_items n h its = Some vits \<longrightarrow> snapshot_items n h' its = Some vits"
proof (induction n h r and n h rs and n h its arbitrary: v and vs and vits
       rule: snapshot_snapshot_list_snapshot_items.induct)
  case (6 n h a)
  show ?case
  proof (intro impI)
    assume f: "length h \<le> length h' \<and> take (length h) h' = h"
       and s: "snapshot (Suc n) h (RObj a) = Some v"
    from s have a: "a < length h" by (auto simp: lookup_def split: if_splits)
    with f have l: "lookup h' a = lookup h a" by (simp add: lookup_frame)
    from a obtain ob where ob: "lookup h a = Some ob" by (simp add: lookup_def)
    show "snapshot (Suc n) h' (RObj a) = Some v"
    proof (cases ob)
      case (ODict its)
      with s ob obtain vits where "snapshot_items n h its = Some vits" "v = VDict vits" by auto
      with 6(1)[OF ob ODict] f have "snapshot_items n h' its = Some vits" by simp
      with l ob ODict \<open>v = VDict vits\<close> show ?thesis by simp
    next
      case (OList rs)
      with s ob obtain vs where "snapshot_list n h rs = Some vs" "v = VList vs" by auto
      with 6(2)[OF ob OList] f have "snapshot_list n h' rs = Some vs" by simp
      with l ob OList \<open>v = VList vs\<close> show ?thesis by simp
    qed
  qed
next
  case (8 n h r rs)
  show ?case
  proof (intro impI)
    assume f: "length h \<le> length h' \<and> take (length h) h' = h"
       and s: "snapshot_list n h (r # rs) = Some vs"
    from s obtain v ws where v: "snapshot n h r = Some v" and ws: "snapshot_list n h rs = Some ws"
      and vs: "vs = v # ws" by (auto split: option.splits)
    from 8(1) f v have "snapshot n h' r = Some v" by simp
    moreover from 8(2)[OF v] f ws have "snapshot_list n h' rs = Some ws" by simp
    ultimately show "snapshot_list n h' (r # rs) = Some vs" using vs by simp
  qed
next
  case (10 n h k r its)
  show ?case
  proof (intro impI)
    assume f: "length h \<le> length h' \<and> take (length h) h' = h"
       and s: "snapshot_items n h ((k, r) # its) = Some vits"
    from s obtain v ws where v: "snapshot n h r = Some v" and ws: "snapshot_items n h its = Some ws"
      and vs: "vits = (k, v) # ws" by (auto split: option.splits)
    from 10(1) f v have "snapshot n h' r = Some v" by simp
    moreover from 10(2)[OF v] f ws have "snapshot_items n h' its = Some ws" by simp
    ultimately show "snapshot_items n h' ((k, r) # its) = Some vits" using vs by simp
  qed
qed auto

lemma snapshot_frame:
  "frame (length h) h h' \<Longrightarrow> snapshot n h r = Some v \<Longrightarrow> snapshot n h' r = Some v"
  using snapshot_frame_aux(1) by (simp add: frame_def)

lemma snapshot_items_frame:
  "frame (length h) h h' \<Longrightarrow> snapshot_items n h its = Some vits
   \<Longrightarrow> snapshot_items n h' its = Some vits"
  using snapshot_frame_aux(3) by (simp add: frame_def)

lemma merge_hash_st_frame: "frame (length h) h (snd (merge_hash_st n h x y recursive list_merge))"
  using frame_aux(1)[of "length h" h n x y recursive list_merge] by simp

text \<open>
  C5. \<^verbatim>\<open>merge_hash(x, y, recursive, list_merge)\<close> leaves \<open>x\<close> and \<open>y\<close> unchanged: read
  through the store the call leaves, to any depth, each is the value it was before the
  call. More than that, every object that existed before the call is unchanged: the call
  only adds objects. This holds for every outcome of the call, errors included.
\<close>

theorem operands_unchanged:
  assumes "snapshot k h x = Some vx" and "snapshot k h y = Some vy"
  shows "snapshot k (snd (merge_hash_st n h x y recursive list_merge)) x = Some vx
       \<and> snapshot k (snd (merge_hash_st n h x y recursive list_merge)) y = Some vy
       \<and> take (length h) (snd (merge_hash_st n h x y recursive list_merge)) = h"
  using assms merge_hash_st_frame[of h n x y recursive list_merge]
  by (simp add: snapshot_frame) (simp add: frame_def)

theorem operands_unchanged_witness:
  "merge_hash_st (Suc (Suc (Suc 0))) ex_store (RObj 1) (RObj 3) True ''append_rp''
     = (Inr (RObj 5),
        ex_store @ [ODict [(''l'', RObj 7)], OList [RInt 1, RInt 2],
                    OList [RInt 1, RInt 2, RInt 3, RInt 4]])
   \<and> snapshot (Suc (Suc 0))
        (snd (merge_hash_st (Suc (Suc (Suc 0))) ex_store (RObj 1) (RObj 3) True ''append_rp''))
        (RObj 1) = Some (VDict [(''l'', VList [VInt 1, VInt 2, VInt 3])])
   \<and> snapshot (Suc (Suc 0))
        (snd (merge_hash_st (Suc (Suc (Suc 0))) ex_store (RObj 1) (RObj 3) True ''append_rp''))
        (RObj 3) = Some (VDict [(''l'', VList [VInt 3, VInt 4])])
   \<and> take (length ex_store)
        (snd (merge_hash_st (Suc (Suc (Suc 0))) ex_store (RObj 1) (RObj 3) True ''append_rp''))
       = ex_store"
proof -
  have hx: "snapshot (Suc (Suc 0)) ex_store (RObj 1)
              = Some (VDict [(''l'', VList [VInt 1, VInt 2, VInt 3])])"
    by (simp add: ex_store_def lookup_def)
  have hy: "snapshot (Suc (Suc 0)) ex_store (RObj 3) = Some (VDict [(''l'', VList [VInt 3, VInt 4])])"
    by (simp add: ex_store_def lookup_def)
  have run: "merge_hash_st (Suc (Suc (Suc 0))) ex_store (RObj 1) (RObj 3) True ''append_rp''
     = (Inr (RObj 5),
        ex_store @ [ODict [(''l'', RObj 7)], OList [RInt 1, RInt 2],
                    OList [RInt 1, RInt 2, RInt 3, RInt 4]])"
    by (simp add: merge_hash_st.simps merge_entry_st.simps ex_store_def lookup_def alloc_def
          setitem_def py_eq_st_def validate_mutable_mappings_st_def list_merge_values_def
          Let_def eval_nat_numeral)
  from operands_unchanged[OF hx hy, of "Suc (Suc (Suc 0))" True "''append_rp''"] run
  show ?thesis by blast
qed

lemma snapshot_mapping:
  assumes "snapshot (Suc n) h x = Some vx" and "is_mapping vx"
  shows "\<exists>a its vits. x = RObj a \<and> a < length h \<and> lookup h a = Some (ODict its)
           \<and> snapshot_items n h its = Some vits \<and> vx = VDict vits"
proof (cases x)
  case (RObj a)
  with assms(1) obtain ob where ob: "lookup h a = Some ob" by (auto split: option.splits)
  then have a: "a < length h" by (auto simp: lookup_def split: if_splits)
  show ?thesis
  proof (cases ob)
    case (ODict its)
    with assms(1) RObj ob a show ?thesis by auto
  next
    case (OList rs)
    with assms RObj ob show ?thesis by auto
  qed
qed (use assms in auto)

lemma copy_of_mapping:
  assumes "lookup h a = Some (ODict its)" and "snapshot_items n h its = Some vits"
  shows "snapshot (Suc n) (h @ [ODict its]) (RObj (length h)) = Some (VDict vits)"
proof -
  have "frame (length h) h (h @ [ODict its])" by (simp add: frame_def)
  from snapshot_items_frame[OF this assms(2)] show ?thesis by (simp add: lookup_def)
qed

text \<open>
  C8. For a valid mapping \<open>v\<close>, \<^verbatim>\<open>merge_hash(v, v)\<close> is \<open>v\<close>, and
  \<^verbatim>\<open>merge_hash({}, v)\<close> is \<open>v\<close>. In the store, both calls return a reference to a new
  object, different from the operand, that stands for the same value as the operand.
\<close>

theorem idempotence_and_copy:
  assumes lm: "list_merge \<in> set list_merge_values"
  shows "(is_mapping v \<and> valid v \<longrightarrow> merge_hash v v recursive list_merge = Inr v)
       \<and> (is_mapping v \<longrightarrow> merge_hash (VDict []) v recursive list_merge = Inr v)
       \<and> (snapshot (Suc n) h x = Some v \<and> is_mapping v \<and> valid v \<longrightarrow>
            (\<exists>a h'. merge_hash_st (Suc n) h x x recursive list_merge = (Inr (RObj a), h')
                   \<and> RObj a \<noteq> x \<and> snapshot (Suc n) h' (RObj a) = Some v))
       \<and> (is_mapping_st h e \<and> dict_items_st h e = [] \<and>
           snapshot (Suc n) h y = Some v \<and> is_mapping v \<longrightarrow>
            (\<exists>a h'. merge_hash_st (Suc n) h e y recursive list_merge = (Inr (RObj a), h')
                   \<and> RObj a \<noteq> y \<and> snapshot (Suc n) h' (RObj a) = Some v))"
proof (intro conjI impI)
  assume "is_mapping v \<and> valid v"
  then have "is_mapping v" "py_eq v v" by (simp_all add: py_eq_refl)
  then show "merge_hash v v recursive list_merge = Inr v"
    by (cases v) (simp_all add: merge_hash_mappings[OF lm] del: py_eq.simps)
next
  assume "is_mapping v"
  then show "merge_hash (VDict []) v recursive list_merge = Inr v"
    by (cases v) (simp_all add: merge_hash_mappings[OF lm])
next
  assume a: "snapshot (Suc n) h x = Some v \<and> is_mapping v \<and> valid v"
  then obtain a its vits where x: "x = RObj a" "a < length h" "lookup h a = Some (ODict its)"
      "snapshot_items n h its = Some vits" "v = VDict vits"
    using snapshot_mapping by blast
  from a have eq: "py_eq_st (Suc n) h x x = Some True"
    by (simp add: py_eq_st_def py_eq_refl del: snapshot.simps)
  have "merge_hash_st (Suc n) h x x recursive list_merge
          = (Inr (RObj (length h)), h @ [ODict its])"
    using lm x(1,3) eq
    by (simp add: merge_hash_st.simps validate_mutable_mappings_st_def alloc_def
          del: snapshot.simps)
  moreover have "RObj (length h) \<noteq> x" using x(1,2) by simp
  moreover have "snapshot (Suc n) (h @ [ODict its]) (RObj (length h)) = Some v"
    using copy_of_mapping[OF x(3,4)] x(5) by simp
  ultimately show "\<exists>a h'. merge_hash_st (Suc n) h x x recursive list_merge = (Inr (RObj a), h')
                   \<and> RObj a \<noteq> x \<and> snapshot (Suc n) h' (RObj a) = Some v" by blast
next
  assume a: "is_mapping_st h e \<and> dict_items_st h e = [] \<and>
           snapshot (Suc n) h y = Some v \<and> is_mapping v"
  then obtain a its vits where y: "y = RObj a" "a < length h" "lookup h a = Some (ODict its)"
      "snapshot_items n h its = Some vits" "v = VDict vits"
    using snapshot_mapping by blast
  have "merge_hash_st (Suc n) h e y recursive list_merge
          = (Inr (RObj (length h)), h @ [ODict its])"
    using lm a y(1,3)
    by (simp add: merge_hash_st.simps validate_mutable_mappings_st_def alloc_def
          del: snapshot.simps)
  moreover have "RObj (length h) \<noteq> y" using y(1,2) by simp
  moreover have "snapshot (Suc n) (h @ [ODict its]) (RObj (length h)) = Some v"
    using copy_of_mapping[OF y(3,4)] y(5) by simp
  ultimately show "\<exists>a h'. merge_hash_st (Suc n) h e y recursive list_merge = (Inr (RObj a), h')
                   \<and> RObj a \<noteq> y \<and> snapshot (Suc n) h' (RObj a) = Some v" by blast
qed

theorem idempotence_and_copy_witness:
  "merge_hash (VDict [(''l'', VList [VInt 1, VInt 2, VInt 3])])
              (VDict [(''l'', VList [VInt 1, VInt 2, VInt 3])]) True ''append''
     = Inr (VDict [(''l'', VList [VInt 1, VInt 2, VInt 3])])
   \<and> merge_hash (VDict []) (VDict [(''l'', VList [VInt 1, VInt 2, VInt 3])]) True ''append''
     = Inr (VDict [(''l'', VList [VInt 1, VInt 2, VInt 3])])
   \<and> (\<exists>a h'. merge_hash_st (Suc (Suc 0)) ex_store (RObj 1) (RObj 1) True ''append''
                = (Inr (RObj a), h')
             \<and> RObj a \<noteq> RObj 1
             \<and> snapshot (Suc (Suc 0)) h' (RObj a)
                 = Some (VDict [(''l'', VList [VInt 1, VInt 2, VInt 3])]))
   \<and> (\<exists>a h'. merge_hash_st (Suc (Suc 0)) ex_store (RObj 4) (RObj 1) True ''append''
                = (Inr (RObj a), h')
             \<and> RObj a \<noteq> RObj 1
             \<and> snapshot (Suc (Suc 0)) h' (RObj a)
                 = Some (VDict [(''l'', VList [VInt 1, VInt 2, VInt 3])]))"
proof -
  have lm: "''append'' \<in> set list_merge_values" by (simp add: list_merge_values_def)
  have v: "is_mapping (VDict [(''l'', VList [VInt 1, VInt 2, VInt 3])])
           \<and> valid (VDict [(''l'', VList [VInt 1, VInt 2, VInt 3])])" by simp
  have s: "snapshot (Suc (Suc 0)) ex_store (RObj 1)
              = Some (VDict [(''l'', VList [VInt 1, VInt 2, VInt 3])])"
    by (simp add: ex_store_def lookup_def)
  have e: "is_mapping_st ex_store (RObj 4) \<and> dict_items_st ex_store (RObj 4) = []"
    by (simp add: ex_store_def lookup_def)
  from idempotence_and_copy[OF lm, of "VDict [(''l'', VList [VInt 1, VInt 2, VInt 3])]" True
         "Suc 0" ex_store "RObj 1" "RObj 4" "RObj 1"] v s e
  show ?thesis by blast
qed

section \<open>The store model against the value model\<close>

text \<open>
  The two embeddings of \<^verbatim>\<open>merge_hash\<close> agree: on operands that are mappings, readable
  within the recursion budget, and with a recognized policy, the merge on the store returns
  a reference, and what the reference stands for in the store the call leaves is the result
  of the merge on values.
\<close>

lemma extends_off_refl: "extends_off B h h"
  by (simp add: extends_off_def)

lemma extends_off_trans:
  "extends_off B h h' \<Longrightarrow> extends_off B h' h'' \<Longrightarrow> extends_off B h h''"
  by (auto simp: extends_off_def)

lemma extends_off_mono: "B \<subseteq> B' \<Longrightarrow> extends_off B h h' \<Longrightarrow> extends_off B' h h'"
  by (auto simp: extends_off_def)

lemma extends_off_frame: "frame (length h) h h' \<Longrightarrow> extends_off B h h'"
  by (auto simp: extends_off_def frame_def) (metis nth_take)

lemma extends_off_update: "a \<in> B \<Longrightarrow> extends_off B h (h[a := ob])"
  by (simp add: extends_off_def) (metis nth_list_update_neq)

lemma extends_off_lookup:
  "extends_off B h h' \<Longrightarrow> a < length h \<Longrightarrow> a \<notin> B \<Longrightarrow> lookup h' a = lookup h a"
  by (auto simp: extends_off_def lookup_def)

lemma stable_store: "stable B n h r v \<Longrightarrow> extends_off B h h' \<Longrightarrow> stable B n h' r v"
  unfolding stable_def by (blast intro: extends_off_trans)

lemma stable_snapshot: "stable B n h r v \<Longrightarrow> snapshot n h r = Some v"
  unfolding stable_def using extends_off_refl by blast

lemma stable_shrink: "B \<subseteq> B' \<Longrightarrow> stable B' n h r v \<Longrightarrow> stable B n h r v"
  unfolding stable_def by (blast intro: extends_off_mono)

lemma stable_items_store:
  "stable_items B n h its acc \<Longrightarrow> extends_off B h h' \<Longrightarrow> stable_items B n h' its acc"
  unfolding stable_items_def by (erule list_all2_mono) (auto intro: stable_store)

lemma stable_list_store:
  "stable_list B n h rs vs \<Longrightarrow> extends_off B h h' \<Longrightarrow> stable_list B n h' rs vs"
  unfolding stable_list_def by (erule list_all2_mono) (auto intro: stable_store)

lemma stable_items_shrink:
  "B \<subseteq> B' \<Longrightarrow> stable_items B' n h its acc \<Longrightarrow> stable_items B n h its acc"
  unfolding stable_items_def by (erule list_all2_mono) (auto intro: stable_shrink)

lemma stable_items_snapshot:
  "stable_items B n h its acc \<Longrightarrow> snapshot_items n h its = Some acc"
  unfolding stable_items_def
proof (induction its acc rule: list_all2_induct)
  case Nil
  then show ?case by simp
next
  case (Cons p its q acc)
  obtain k r where p: "p = (k, r)" by (cases p)
  obtain k' v where q: "q = (k', v)" by (cases q)
  from Cons(1) p q have "k' = k" "snapshot n h r = Some v" by (auto dest: stable_snapshot)
  with Cons(3) show ?case by (simp add: p q)
qed

lemma stable_list_snapshot:
  "stable_list B n h rs vs \<Longrightarrow> snapshot_list n h rs = Some vs"
  unfolding stable_list_def
  by (induction rs vs rule: list_all2_induct) (auto dest: stable_snapshot)

lemma stable_dict_intro:
  assumes "a < length h" "a \<notin> B" "lookup h a = Some (ODict its)" "stable_items B n h its acc"
  shows "stable B (Suc n) h (RObj a) (VDict acc)"
  unfolding stable_def
proof (intro allI impI)
  fix h' assume e: "extends_off B h h'"
  have "lookup h' a = Some (ODict its)" using extends_off_lookup[OF e assms(1,2)] assms(3) by simp
  moreover have "snapshot_items n h' its = Some acc"
    using stable_items_snapshot[OF stable_items_store[OF assms(4) e]] .
  ultimately show "snapshot (Suc n) h' (RObj a) = Some (VDict acc)" by simp
qed

lemma stable_list_intro:
  assumes "a < length h" "a \<notin> B" "lookup h a = Some (OList rs)" "stable_list B n h rs vs"
  shows "stable B (Suc n) h (RObj a) (VList vs)"
  unfolding stable_def
proof (intro allI impI)
  fix h' assume e: "extends_off B h h'"
  have "lookup h' a = Some (OList rs)" using extends_off_lookup[OF e assms(1,2)] assms(3) by simp
  moreover have "snapshot_list n h' rs = Some vs"
    using stable_list_snapshot[OF stable_list_store[OF assms(4) e]] .
  ultimately show "snapshot (Suc n) h' (RObj a) = Some (VList vs)" by simp
qed


lemma snapshot_items_pointwise:
  "snapshot_items n h its = Some acc \<Longrightarrow>
   list_all2 (\<lambda>p q. fst q = fst p \<and> snapshot n h (snd p) = Some (snd q)) its acc"
proof (induction its arbitrary: acc)
  case Nil
  then show ?case by simp
next
  case (Cons p its)
  obtain k r where p: "p = (k, r)" by (cases p)
  from Cons.prems p obtain v ws where "snapshot n h r = Some v" "snapshot_items n h its = Some ws"
    "acc = (k, v) # ws" by (auto split: option.splits)
  with Cons.IH[of ws] show ?case by (simp add: p)
qed

lemma snapshot_list_pointwise:
  "snapshot_list n h rs = Some vs \<Longrightarrow> list_all2 (\<lambda>r v. snapshot n h r = Some v) rs vs"
proof (induction rs arbitrary: vs)
  case Nil
  then show ?case by simp
next
  case (Cons r rs)
  from Cons.prems obtain v ws where "snapshot n h r = Some v" "snapshot_list n h rs = Some ws"
    "vs = v # ws" by (auto split: option.splits)
  with Cons.IH[of ws] show ?case by simp
qed

lemma stable_dict_dest:
  assumes st: "stable B n h x (VDict acc)"
  shows "\<exists>a its k. x = RObj a \<and> n = Suc k \<and> a < length h \<and> a \<notin> B
            \<and> lookup h a = Some (ODict its) \<and> stable_items B k h its acc"
proof -
  from stable_snapshot[OF st] have s: "snapshot n h x = Some (VDict acc)" .
  then obtain a where x: "x = RObj a" by (cases x) auto
  from s x obtain k where n: "n = Suc k" by (cases n) auto
  from s x n obtain ob where ob: "lookup h a = Some ob" by (auto split: option.splits)
  then have al: "a < length h" by (auto simp: lookup_def split: if_splits)
  from s x n ob obtain its where its: "ob = ODict its" by (cases ob) auto
  have nb: "a \<notin> B"
  proof
    assume "a \<in> B"
    then have "extends_off B h (h[a := OList []])" by (rule extends_off_update)
    with st have "snapshot n (h[a := OList []]) x = Some (VDict acc)" by (simp add: stable_def)
    then show False using x n al by (simp add: lookup_def)
  qed
  have pw: "\<And>h'. extends_off B h h' \<Longrightarrow>
     list_all2 (\<lambda>p q. fst q = fst p \<and> snapshot k h' (snd p) = Some (snd q)) its acc"
  proof -
    fix h' assume e: "extends_off B h h'"
    with st have "snapshot n h' x = Some (VDict acc)" by (simp add: stable_def)
    moreover have "lookup h' a = Some (ODict its)"
      using extends_off_lookup[OF e al nb] ob its by simp
    ultimately have "snapshot_items k h' its = Some acc" using x n by auto
    then show "list_all2 (\<lambda>p q. fst q = fst p \<and> snapshot k h' (snd p) = Some (snd q)) its acc"
      by (rule snapshot_items_pointwise)
  qed
  have "stable_items B k h its acc"
    unfolding stable_items_def stable_def list_all2_conv_all_nth
  proof (intro conjI allI impI)
    show "length its = length acc"
      using pw[OF extends_off_refl] by (simp add: list_all2_lengthD)
  next
    fix i assume "i < length its"
    with pw[OF extends_off_refl] show "fst (acc ! i) = fst (its ! i)"
      by (simp add: list_all2_conv_all_nth)
  next
    fix i h' assume "i < length its" "extends_off B h h'"
    with pw[of h'] show "snapshot k h' (snd (its ! i)) = Some (snd (acc ! i))"
      by (simp add: list_all2_conv_all_nth)
  qed
  with x n al nb ob its show ?thesis by blast
qed

lemma stable_list_dest:
  assumes st: "stable B n h x (VList vs)"
  shows "\<exists>a rs k. x = RObj a \<and> n = Suc k \<and> a < length h \<and> a \<notin> B
            \<and> lookup h a = Some (OList rs) \<and> stable_list B k h rs vs"
proof -
  from stable_snapshot[OF st] have s: "snapshot n h x = Some (VList vs)" .
  then obtain a where x: "x = RObj a" by (cases x) auto
  from s x obtain k where n: "n = Suc k" by (cases n) auto
  from s x n obtain ob where ob: "lookup h a = Some ob" by (auto split: option.splits)
  then have al: "a < length h" by (auto simp: lookup_def split: if_splits)
  from s x n ob obtain rs where rs: "ob = OList rs" by (cases ob) auto
  have nb: "a \<notin> B"
  proof
    assume "a \<in> B"
    then have "extends_off B h (h[a := ODict []])" by (rule extends_off_update)
    with st have "snapshot n (h[a := ODict []]) x = Some (VList vs)" by (simp add: stable_def)
    then show False using x n al by (simp add: lookup_def)
  qed
  have pw: "\<And>h'. extends_off B h h' \<Longrightarrow> list_all2 (\<lambda>r v. snapshot k h' r = Some v) rs vs"
  proof -
    fix h' assume e: "extends_off B h h'"
    with st have "snapshot n h' x = Some (VList vs)" by (simp add: stable_def)
    moreover have "lookup h' a = Some (OList rs)"
      using extends_off_lookup[OF e al nb] ob rs by simp
    ultimately have "snapshot_list k h' rs = Some vs" using x n by auto
    then show "list_all2 (\<lambda>r v. snapshot k h' r = Some v) rs vs"
      by (rule snapshot_list_pointwise)
  qed
  have "stable_list B k h rs vs"
    unfolding stable_list_def stable_def list_all2_conv_all_nth
  proof (intro conjI allI impI)
    show "length rs = length vs"
      using pw[OF extends_off_refl] by (simp add: list_all2_lengthD)
  next
    fix i h' assume "i < length rs" "extends_off B h h'"
    with pw[of h'] show "snapshot k h' (rs ! i) = Some (vs ! i)"
      by (simp add: list_all2_conv_all_nth)
  qed
  with x n al nb ob rs show ?thesis by blast
qed

lemma snapshot_fuel_aux:
  "snapshot n h r = Some v \<longrightarrow> snapshot (Suc n) h r = Some v"
  "snapshot_list n h rs = Some vs \<longrightarrow> snapshot_list (Suc n) h rs = Some vs"
  "snapshot_items n h its = Some vits \<longrightarrow> snapshot_items (Suc n) h its = Some vits"
proof (induction n h r and n h rs and n h its arbitrary: v and vs and vits
       rule: snapshot_snapshot_list_snapshot_items.induct)
  case (6 n h a)
  show ?case
  proof
    assume s: "snapshot (Suc n) h (RObj a) = Some v"
    then obtain ob where ob: "lookup h a = Some ob" by (auto split: option.splits)
    show "snapshot (Suc (Suc n)) h (RObj a) = Some v"
    proof (cases ob)
      case (ODict its)
      with s ob obtain vits where "snapshot_items n h its = Some vits" "v = VDict vits" by auto
      with 6(1)[OF ob ODict] ob ODict show ?thesis by simp
    next
      case (OList rs)
      with s ob obtain vs where "snapshot_list n h rs = Some vs" "v = VList vs" by auto
      with 6(2)[OF ob OList] ob OList show ?thesis by simp
    qed
  qed
next
  case (8 n h r rs)
  show ?case
  proof
    assume s: "snapshot_list n h (r # rs) = Some vs"
    then obtain v ws where v: "snapshot n h r = Some v" and ws: "snapshot_list n h rs = Some ws"
      and vs: "vs = v # ws" by (auto split: option.splits)
    from 8(1) v have "snapshot (Suc n) h r = Some v" by simp
    moreover from 8(2)[OF v] ws have "snapshot_list (Suc n) h rs = Some ws" by simp
    ultimately show "snapshot_list (Suc n) h (r # rs) = Some vs" using vs by simp
  qed
next
  case (10 n h k r its)
  show ?case
  proof
    assume s: "snapshot_items n h ((k, r) # its) = Some vits"
    then obtain v ws where v: "snapshot n h r = Some v" and ws: "snapshot_items n h its = Some ws"
      and vs: "vits = (k, v) # ws" by (auto split: option.splits)
    from 10(1) v have "snapshot (Suc n) h r = Some v" by simp
    moreover from 10(2)[OF v] ws have "snapshot_items (Suc n) h its = Some ws" by simp
    ultimately show "snapshot_items (Suc n) h ((k, r) # its) = Some vits" using vs by simp
  qed
qed auto

lemma stable_fuel: "stable B n h r v \<Longrightarrow> stable B (Suc n) h r v"
  unfolding stable_def using snapshot_fuel_aux(1) by blast

lemma stable_list_fuel: "stable_list B n h rs vs \<Longrightarrow> stable_list B (Suc n) h rs vs"
  unfolding stable_list_def by (erule list_all2_mono) (rule stable_fuel)

lemma extends_off_fresh:
  assumes "extends_off (insert (length h) B) (h @ [ob]) h'"
  shows "extends_off B h h'"
  using assms by (auto simp: extends_off_def nth_append)

lemma stable_fresh: "stable B n h r v \<Longrightarrow> stable (insert (length h) B) n (h @ [ob]) r v"
  unfolding stable_def by (blast intro: extends_off_fresh)

lemma stable_items_fresh:
  "stable_items B n h its acc \<Longrightarrow> stable_items (insert (length h) B) n (h @ [ob]) its acc"
  unfolding stable_items_def by (erule list_all2_mono) (auto intro: stable_fresh)

lemma stable_mapping_iff:
  assumes "stable B n h r v"
  shows "is_mapping_st h r \<longleftrightarrow> is_mapping v"
proof
  assume "is_mapping v"
  then obtain acc where "v = VDict acc" by (cases v) auto
  with stable_dict_dest[of B n h r acc] assms show "is_mapping_st h r" by auto
next
  assume m: "is_mapping_st h r"
  then obtain a where r: "r = RObj a" by (cases r) auto
  with m obtain its where l: "lookup h a = Some (ODict its)"
    by (auto split: option.splits obj.splits)
  from stable_snapshot[OF assms] r l show "is_mapping v"
    by (cases n) auto
qed

lemma stable_sequence_iff:
  assumes "stable B n h r v"
  shows "is_mutable_sequence_st h r \<longleftrightarrow> is_mutable_sequence v"
proof
  assume "is_mutable_sequence v"
  then obtain vs where "v = VList vs" by (cases v) auto
  with stable_list_dest[of B n h r vs] assms show "is_mutable_sequence_st h r" by auto
next
  assume m: "is_mutable_sequence_st h r"
  then obtain a where r: "r = RObj a" by (cases r) auto
  with m obtain rs where l: "lookup h a = Some (OList rs)"
    by (auto split: option.splits obj.splits)
  from stable_snapshot[OF assms] r l show "is_mutable_sequence v"
    by (cases n) auto
qed


lemma stable_items_map_of_None:
  "stable_items B n h its acc \<Longrightarrow> (map_of its k = None) = (map_of acc k = None)"
  unfolding stable_items_def
  by (induction its acc rule: list_all2_induct) auto

lemma stable_items_map_of_Some:
  "stable_items B n h its acc \<Longrightarrow> map_of its k = Some r \<Longrightarrow>
   \<exists>v. map_of acc k = Some v \<and> stable B n h r v"
  unfolding stable_items_def
  by (induction its acc rule: list_all2_induct) (auto split: if_splits)

lemma stable_items_dict_set:
  "stable_items B n h its acc \<Longrightarrow> stable B n h r v \<Longrightarrow>
   stable_items B n h (dict_set k r its) (dict_set k v acc)"
  unfolding stable_items_def
  by (induction its acc rule: list_all2_induct) auto

lemma stable_items_dict_update:
  "stable_items B n h its acc \<Longrightarrow> stable_items B n h ys vys \<Longrightarrow>
   stable_items B n h (dict_update its ys) (dict_update acc vys)"
proof (induction ys arbitrary: its acc vys)
  case Nil
  then show ?case by (simp add: stable_items_def)
next
  case (Cons p ys)
  obtain k r where p: "p = (k, r)" by (cases p)
  from Cons.prems(2) p obtain v vrest where vys: "vys = (k, v) # vrest"
    and st: "stable B n h r v" and rest: "stable_items B n h ys vrest"
    by (cases vys) (auto simp: stable_items_def)
  from Cons.IH[OF stable_items_dict_set[OF Cons.prems(1) st] rest]
  show ?case by (simp add: p vys)
qed

lemma stable_items_empty: "stable_items B n h its acc \<Longrightarrow> (its = []) = (acc = [])"
  unfolding stable_items_def by (auto dest: list_all2_lengthD)

lemma stable_list_append:
  "stable_list B n h xl xs \<Longrightarrow> stable_list B n h yl ys \<Longrightarrow>
   stable_list B n h (xl @ yl) (xs @ ys)"
  unfolding stable_list_def by (rule list_all2_appendI)

lemma remove_present_stable:
  assumes "stable_list B k h xl xs" and y: "stable_list B k h yl ys"
  shows "\<exists>keep. remove_present (Suc k) h xl yl = Some keep
            \<and> stable_list B k h keep [z \<leftarrow> xs. \<not> py_in z ys]"
  using assms(1) unfolding stable_list_def
proof (induction xl xs rule: list_all2_induct)
  case Nil
  then show ?case by simp
next
  case (Cons z xl vz xs)
  from Cons(3) obtain keep where k: "remove_present (Suc k) h xl yl = Some keep"
    "list_all2 (stable B k h) keep [z \<leftarrow> xs. \<not> py_in z ys]" by blast
  have sz: "snapshot (Suc k) h z = Some vz"
    using stable_snapshot[OF stable_fuel[OF Cons(1)]] .
  have sy: "snapshot_list (Suc k) h yl = Some ys"
    using stable_list_snapshot[OF stable_list_fuel[OF y]] .
  show ?case using k sz sy Cons(1) by simp
qed

lemma merge_entry_st_mappings:
  "is_mapping_st h x_value \<and> is_mapping_st h y_value \<Longrightarrow>
   merge_entry_st n h x_value y_value recursive list_merge =
     (if recursive then
        (case merge_hash_st n h x_value y_value recursive list_merge of
           (Inl e, h') \<Rightarrow> (Inl e, h')
         | (Inr v, h') \<Rightarrow> (Inr (Some v), h'))
      else (Inr (Some y_value), h))"
  by (subst merge_entry_st.simps) simp

lemma merge_entry_st_not_mappings:
  "\<not> (is_mapping_st h x_value \<and> is_mapping_st h y_value) \<Longrightarrow>
   merge_entry_st n h x_value y_value recursive list_merge =
     (if is_mutable_sequence_st h x_value \<and> is_mutable_sequence_st h y_value then
        (if list_merge = ''replace'' then (Inr (Some y_value), h)
         else if list_merge = ''append'' then
           (Inr (Some (RObj (length h))),
            h @ [OList (list_elems_st h x_value @ list_elems_st h y_value)])
         else if list_merge = ''prepend'' then
           (Inr (Some (RObj (length h))),
            h @ [OList (list_elems_st h y_value @ list_elems_st h x_value)])
         else if list_merge = ''append_rp'' then
           (case remove_present n h (list_elems_st h x_value) (list_elems_st h y_value) of
              None \<Rightarrow> (Inl RecursionError, h)
            | Some keep \<Rightarrow>
                (Inr (Some (RObj (Suc (length h)))),
                 h @ [OList keep, OList (keep @ list_elems_st h y_value)]))
         else if list_merge = ''prepend_rp'' then
           (case remove_present n h (list_elems_st h x_value) (list_elems_st h y_value) of
              None \<Rightarrow> (Inl RecursionError, h)
            | Some keep \<Rightarrow>
                (Inr (Some (RObj (Suc (length h)))),
                 h @ [OList keep, OList (list_elems_st h y_value @ keep)]))
         else (Inr None, h))
      else (Inr (Some y_value), h))"
  by (subst merge_entry_st.simps) (auto simp add: Let_def alloc_def split: option.splits)


lemma extends_off_append: "extends_off B h (h @ hs)"
  by (simp add: extends_off_def nth_append)

lemma stable_new_list:
  assumes B: "B \<subseteq> {..<length h}" and st: "stable_list B k h rs vs"
    and a: "length h \<le> a" "a < length (h @ hs)"
    and l: "lookup (h @ hs) a = Some (OList rs)"
  shows "stable B (Suc k) (h @ hs) (RObj a) (VList vs)"
proof (rule stable_list_intro[OF a(2) _ l])
  show "a \<notin> B" using B a(1) by auto
  show "stable_list B k (h @ hs) rs vs"
    using stable_list_store[OF st extends_off_append] .
qed

lemma stable_new_dict:
  assumes B: "B \<subseteq> {..<length h}" and st: "stable_items B k h its acc"
    and a: "length h \<le> a" "a < length (h @ hs)"
    and l: "lookup (h @ hs) a = Some (ODict its)"
  shows "stable B (Suc k) (h @ hs) (RObj a) (VDict acc)"
proof (rule stable_dict_intro[OF a(2) _ l])
  show "a \<notin> B" using B a(1) by auto
  show "stable_items B k (h @ hs) its acc"
    using stable_items_store[OF st extends_off_append] .
qed

lemma sim_entry_not_mappings:
  assumes B: "B \<subseteq> {..<length h}"
    and sx: "stable B n h x_value xv" and sy: "stable B n h y_value yv"
    and nm: "\<not> (is_mapping xv \<and> is_mapping yv)"
  shows "\<exists>h' out. merge_entry_st n h x_value y_value recursive list_merge = (Inr out, h')
           \<and> (case out of
                 None \<Rightarrow> merge_entry xv yv recursive list_merge = Inr None
               | Some r \<Rightarrow> (\<exists>v. merge_entry xv yv recursive list_merge = Inr (Some v)
                               \<and> stable B n h' r v))"
proof -
  have nms: "\<not> (is_mapping_st h x_value \<and> is_mapping_st h y_value)"
    using nm stable_mapping_iff[OF sx] stable_mapping_iff[OF sy] by simp
  note st = merge_entry_st_not_mappings[OF nms, of n recursive list_merge]
  note pu = merge_entry_not_mappings[OF nm, of recursive list_merge]
  show ?thesis
  proof (cases "is_mutable_sequence xv \<and> is_mutable_sequence yv")
    case False
    then have ns: "\<not> (is_mutable_sequence_st h x_value \<and> is_mutable_sequence_st h y_value)"
      using stable_sequence_iff[OF sx] stable_sequence_iff[OF sy] by simp
    have "merge_entry_st n h x_value y_value recursive list_merge = (Inr (Some y_value), h)"
      using st ns by (simp only: if_False)
    moreover have "merge_entry xv yv recursive list_merge = Inr (Some yv)"
      using pu False by (simp only: if_False)
    ultimately show ?thesis using sy by simp
  next
    case True
    then have sq: "is_mutable_sequence_st h x_value \<and> is_mutable_sequence_st h y_value"
      using stable_sequence_iff[OF sx] stable_sequence_iff[OF sy] by simp
    from True obtain xs ys where xv: "xv = VList xs" and yv: "yv = VList ys"
      by (cases xv; cases yv) auto
    from stable_list_dest[OF sx[unfolded xv]] obtain ax xl k where
      x: "x_value = RObj ax" and n: "n = Suc k" and lx: "lookup h ax = Some (OList xl)"
      and stx: "stable_list B k h xl xs" by blast
    from stable_list_dest[OF sy[unfolded yv]] n obtain ay yl where
      y: "y_value = RObj ay" and ly: "lookup h ay = Some (OList yl)"
      and sty: "stable_list B k h yl ys" by auto
    have ex: "list_elems_st h x_value = xl" using x lx by simp
    have ey: "list_elems_st h y_value = yl" using y ly by simp
    from remove_present_stable[OF stx sty] obtain keep where
      rp: "remove_present (Suc k) h xl yl = Some keep"
      and sk: "stable_list B k h keep [z \<leftarrow> xs. \<not> py_in z ys]" by blast
    have s1: "stable B (Suc k) (h @ [OList (xl @ yl)]) (RObj (length h)) (VList (xs @ ys))"
      by (rule stable_new_list[OF B stable_list_append[OF stx sty]]) (simp_all add: lookup_def)
    have s2: "stable B (Suc k) (h @ [OList (yl @ xl)]) (RObj (length h)) (VList (ys @ xs))"
      by (rule stable_new_list[OF B stable_list_append[OF sty stx]]) (simp_all add: lookup_def)
    have s3: "stable B (Suc k) (h @ [OList keep, OList (keep @ yl)]) (RObj (Suc (length h)))
                (VList ([z \<leftarrow> xs. \<not> py_in z ys] @ ys))"
      by (rule stable_new_list[OF B stable_list_append[OF sk sty]])
         (simp_all add: lookup_def nth_append)
    have s4: "stable B (Suc k) (h @ [OList keep, OList (yl @ keep)]) (RObj (Suc (length h)))
                (VList (ys @ [z \<leftarrow> xs. \<not> py_in z ys]))"
      by (rule stable_new_list[OF B stable_list_append[OF sty sk]])
         (simp_all add: lookup_def nth_append)
    consider (replace) "list_merge = ''replace''"
      | (append) "list_merge \<noteq> ''replace''" "list_merge = ''append''"
      | (prepend) "list_merge \<noteq> ''replace''" "list_merge \<noteq> ''append''"
                  "list_merge = ''prepend''"
      | (append_rp) "list_merge \<noteq> ''replace''" "list_merge \<noteq> ''append''"
                  "list_merge \<noteq> ''prepend''" "list_merge = ''append_rp''"
      | (prepend_rp) "list_merge \<noteq> ''replace''" "list_merge \<noteq> ''append''"
                  "list_merge \<noteq> ''prepend''" "list_merge \<noteq> ''append_rp''"
                  "list_merge = ''prepend_rp''"
      | (keep) "list_merge \<noteq> ''replace''" "list_merge \<noteq> ''append''"
                  "list_merge \<noteq> ''prepend''" "list_merge \<noteq> ''append_rp''"
                  "list_merge \<noteq> ''prepend_rp''"
      by blast
    then show ?thesis
    proof cases
      case replace
      have "merge_entry_st n h x_value y_value recursive list_merge = (Inr (Some y_value), h)"
        using st sq replace by simp
      moreover have "merge_entry xv yv recursive list_merge = Inr (Some yv)"
        using pu True replace by simp
      ultimately show ?thesis using sy by simp
    next
      case append
      have "merge_entry_st n h x_value y_value recursive list_merge
              = (Inr (Some (RObj (length h))), h @ [OList (xl @ yl)])"
        using st sq append ex ey by simp
      moreover have "merge_entry xv yv recursive list_merge = Inr (Some (VList (xs @ ys)))"
        using pu True append xv yv by simp
      ultimately show ?thesis using s1 n by simp
    next
      case prepend
      have "merge_entry_st n h x_value y_value recursive list_merge
              = (Inr (Some (RObj (length h))), h @ [OList (yl @ xl)])"
        using st sq prepend ex ey by simp
      moreover have "merge_entry xv yv recursive list_merge = Inr (Some (VList (ys @ xs)))"
        using pu True prepend xv yv by simp
      ultimately show ?thesis using s2 n by simp
    next
      case append_rp
      have "merge_entry_st n h x_value y_value recursive list_merge
              = (Inr (Some (RObj (Suc (length h)))), h @ [OList keep, OList (keep @ yl)])"
        using st sq append_rp ex ey rp n by simp
      moreover have "merge_entry xv yv recursive list_merge
              = Inr (Some (VList ([z \<leftarrow> xs. \<not> py_in z ys] @ ys)))"
        using pu True append_rp xv yv by simp
      ultimately show ?thesis using s3 n by simp
    next
      case prepend_rp
      have "merge_entry_st n h x_value y_value recursive list_merge
              = (Inr (Some (RObj (Suc (length h)))), h @ [OList keep, OList (yl @ keep)])"
        using st sq prepend_rp ex ey rp n by simp
      moreover have "merge_entry xv yv recursive list_merge
              = Inr (Some (VList (ys @ [z \<leftarrow> xs. \<not> py_in z ys])))"
        using pu True prepend_rp xv yv by simp
      ultimately show ?thesis using s4 n by simp
    next
      case keep
      have "merge_entry_st n h x_value y_value recursive list_merge = (Inr None, h)"
        using st sq keep by simp
      moreover have "merge_entry xv yv recursive list_merge = Inr None"
        using pu True keep by simp
      ultimately show ?thesis by simp
    qed
  qed
qed


lemma merge_hash_st_mappings:
  "list_merge \<in> set list_merge_values \<Longrightarrow> is_mapping_st h x \<Longrightarrow> is_mapping_st h y \<Longrightarrow>
   merge_hash_st (Suc n) h x y recursive list_merge =
     (case (if dict_items_st h x = [] then Some True else py_eq_st (Suc n) h x y) of
        None \<Rightarrow> (Inl RecursionError, h)
      | Some True \<Rightarrow> (Inr (RObj (length h)), h @ [ODict (dict_items_st h y)])
      | Some False \<Rightarrow>
          (if \<not> recursive \<and> list_merge = ''replace''
           then (Inr (RObj (length h)),
                 (h @ [ODict (dict_items_st h x)])
                   [length h := ODict (dict_update
                      (dict_items_st (h @ [ODict (dict_items_st h x)]) (RObj (length h)))
                      (dict_items_st (h @ [ODict (dict_items_st h x)]) y))])
           else (case merge_items_st n (h @ [ODict (dict_items_st h x)]) (length h)
                        (dict_items_st (h @ [ODict (dict_items_st h x)]) y)
                        recursive list_merge of
                   (Inl e, h'') \<Rightarrow> (Inl e, h'')
                 | (Inr _, h'') \<Rightarrow> (Inr (RObj (length h)), h''))))"
  by (subst merge_hash_st.simps)
     (simp add: validate_mutable_mappings_st_def alloc_def split: option.splits bool.splits)

lemma sim_setitem:
  assumes B: "B \<subseteq> {..<length h}" and x': "x' \<in> B"
    and l: "lookup h x' = Some (ODict its)"
    and si: "stable_items B n h its acc" and sr: "stable B n h r v"
  shows "lookup (setitem h x' key r) x' = Some (ODict (dict_set key r its))"
    and "stable_items B n (setitem h x' key r) (dict_set key r its) (dict_set key v acc)"
    and "extends_off B h (setitem h x' key r)"
    and "B \<subseteq> {..<length (setitem h x' key r)}"
proof -
  have lt: "x' < length h" using B x' by auto
  have e: "setitem h x' key r = h[x' := ODict (dict_set key r its)]"
    using l by (simp add: setitem_def)
  show "lookup (setitem h x' key r) x' = Some (ODict (dict_set key r its))"
    using lt by (simp add: e lookup_def)
  show ext: "extends_off B h (setitem h x' key r)"
    unfolding e by (rule extends_off_update[OF x'])
  show "stable_items B n (setitem h x' key r) (dict_set key r its) (dict_set key v acc)"
    by (rule stable_items_store[OF stable_items_dict_set[OF si sr] ext])
  show "B \<subseteq> {..<length (setitem h x' key r)}" using B by (simp add: e)
qed


lemma sim_aux:
  "\<forall>B vx vy. B \<subseteq> {..<length h} \<and> stable B n h x vx \<and> stable B n h y vy
       \<and> is_mapping vx \<and> is_mapping vy \<and> list_merge \<in> set list_merge_values
     \<longrightarrow> (\<exists>a h' v. merge_hash_st n h x y recursive list_merge = (Inr (RObj a), h')
            \<and> merge_hash vx vy recursive list_merge = Inr v
            \<and> stable B n h' (RObj a) v)"
  "\<forall>B its acc vys. B \<subseteq> {..<length h} \<and> x' \<in> B \<and> lookup h x' = Some (ODict its)
       \<and> stable_items B n h its acc \<and> stable_items B n h ys vys
       \<and> list_merge \<in> set list_merge_values
     \<longrightarrow> (\<exists>h' its' acc'. merge_items_st n h x' ys recursive list_merge = (Inr (), h')
            \<and> merge_items acc vys recursive list_merge = Inr acc'
            \<and> lookup h' x' = Some (ODict its')
            \<and> stable_items B n h' its' acc' \<and> extends_off B h h')"
  "\<forall>B xv yv. B \<subseteq> {..<length h} \<and> stable B n h x_value xv \<and> stable B n h y_value yv
       \<and> list_merge \<in> set list_merge_values
     \<longrightarrow> (\<exists>h' out. merge_entry_st n h x_value y_value recursive list_merge = (Inr out, h')
            \<and> (case out of
                  None \<Rightarrow> merge_entry xv yv recursive list_merge = Inr None
                | Some r \<Rightarrow> (\<exists>v. merge_entry xv yv recursive list_merge = Inr (Some v)
                                \<and> stable B n h' r v)))"
proof (induction n h x y recursive list_merge and n h x' ys recursive list_merge
         and n h x_value y_value recursive list_merge
       rule: merge_hash_st_merge_items_st_merge_entry_st.induct)
  case (1 h x y recursive list_merge)
  show ?case
  proof (intro allI impI)
    fix B vx vy
    assume a: "B \<subseteq> {..<length h} \<and> stable B 0 h x vx \<and> stable B 0 h y vy
       \<and> is_mapping vx \<and> is_mapping vy \<and> list_merge \<in> set list_merge_values"
    then obtain accx where "vx = VDict accx" by (cases vx) auto
    with a stable_dict_dest[of B 0 h x accx] have False by auto
    then show "\<exists>a h' v. merge_hash_st 0 h x y recursive list_merge = (Inr (RObj a), h')
            \<and> merge_hash vx vy recursive list_merge = Inr v
            \<and> stable B 0 h' (RObj a) v" ..
  qed
next
  case (2 n h x y recursive list_merge)
  show ?case
  proof (intro allI impI)
    fix B vx vy
    assume a: "B \<subseteq> {..<length h} \<and> stable B (Suc n) h x vx \<and> stable B (Suc n) h y vy
       \<and> is_mapping vx \<and> is_mapping vy \<and> list_merge \<in> set list_merge_values"
    then have B: "B \<subseteq> {..<length h}" and sx: "stable B (Suc n) h x vx"
      and sy: "stable B (Suc n) h y vy" and mx: "is_mapping vx" and my: "is_mapping vy"
      and lm: "list_merge \<in> set list_merge_values" by simp_all
    from mx my obtain accx accy where vx: "vx = VDict accx" and vy: "vy = VDict accy"
      by (cases vx; cases vy) auto
    from stable_dict_dest[OF sx[unfolded vx]] obtain ax xits where
      x: "x = RObj ax" and ax: "ax < length h"
      and lx: "lookup h ax = Some (ODict xits)" and sxi: "stable_items B n h xits accx"
      by auto
    from stable_dict_dest[OF sy[unfolded vy]] obtain ay yits where
      y: "y = RObj ay" and ay: "ay < length h"
      and ly: "lookup h ay = Some (ODict yits)" and syi: "stable_items B n h yits accy"
      by auto
    let ?h1 = "h @ [ODict xits]"
    have dx: "dict_items_st h x = xits" using x lx by simp
    have dy: "dict_items_st h y = yits" using y ly by simp
    have dx1: "dict_items_st ?h1 (RObj (length h)) = xits" by (simp add: lookup_def)
    have "lookup ?h1 ay = Some (ODict yits)"
      using ly ay by (simp add: lookup_def nth_append)
    then have dy1: "dict_items_st ?h1 y = yits" using y by simp
    have msx: "is_mapping_st h x" using x lx by simp
    have msy: "is_mapping_st h y" using y ly by simp
    note st = merge_hash_st_mappings[OF lm msx msy, of n recursive, unfolded dx dy dx1 dy1]
    note pu = merge_hash_mappings[OF lm mx my, of recursive]
    have eq: "py_eq_st (Suc n) h x y = Some (py_eq vx vy)"
      using stable_snapshot[OF sx] stable_snapshot[OF sy] by (simp add: py_eq_st_def)
    have emp: "py_eq vx (VDict []) \<longleftrightarrow> xits = []"
      using stable_items_empty[OF sxi] py_eq_empty_dict[of accx] by (simp add: vx del: py_eq.simps)
    have fast: "(if xits = [] then Some True else py_eq_st (Suc n) h x y)
                  = Some (py_eq vx (VDict []) \<or> py_eq vx vy)"
      using eq emp by simp
    show "\<exists>a h' v. merge_hash_st (Suc n) h x y recursive list_merge = (Inr (RObj a), h')
            \<and> merge_hash vx vy recursive list_merge = Inr v
            \<and> stable B (Suc n) h' (RObj a) v"
    proof (cases "py_eq vx (VDict []) \<or> py_eq vx vy")
      case True
      have "merge_hash_st (Suc n) h x y recursive list_merge
              = (Inr (RObj (length h)), h @ [ODict yits])"
        using st fast True by simp
      moreover have "merge_hash vx vy recursive list_merge = Inr (VDict accy)"
        using pu True by (simp add: vy)
      moreover have "stable B (Suc n) (h @ [ODict yits]) (RObj (length h)) (VDict accy)"
        by (rule stable_new_dict[OF B syi]) (simp_all add: lookup_def)
      ultimately show ?thesis by blast
    next
      case False
      then have fastF: "(if xits = [] then Some True else py_eq_st (Suc n) h x y) = Some False"
        using fast by simp
      show ?thesis
      proof (cases "\<not> recursive \<and> list_merge = ''replace''")
        case True
        have "merge_hash_st (Suc n) h x y recursive list_merge
                = (Inr (RObj (length h)), h @ [ODict (dict_update xits yits)])"
          using st fastF True by simp
        moreover have "merge_hash vx vy recursive list_merge
                = Inr (VDict (dict_update accx accy))"
          using pu False True by (simp add: vx vy del: py_eq.simps)
        moreover have "stable B (Suc n) (h @ [ODict (dict_update xits yits)]) (RObj (length h))
                         (VDict (dict_update accx accy))"
          by (rule stable_new_dict[OF B stable_items_dict_update[OF sxi syi]])
             (simp_all add: lookup_def)
        ultimately show ?thesis by blast
      next
        case nr: False
        let ?B = "insert (length h) B"
        have nl: "\<not> list_merge \<notin> set list_merge_values" using lm by simp
        have v: "validate_mutable_mappings_st h x y = None"
          using msx msy by (simp add: validate_mutable_mappings_st_def)
        have fs: "(if dict_items_st h x = [] then Some True else py_eq_st (Suc n) h x y)
                    = Some False" using fastF dx by simp
        have al: "(length h, ?h1) = alloc h (ODict (dict_items_st h x))"
          by (simp add: alloc_def dx)
        note IH = 2[OF nl v fs refl al nr, unfolded dy1]
        have p1: "?B \<subseteq> {..<length ?h1}" using B by auto
        have p2: "lookup ?h1 (length h) = Some (ODict xits)" by (simp add: lookup_def)
        have p3: "stable_items ?B n ?h1 xits accx" by (rule stable_items_fresh[OF sxi])
        have p4: "stable_items ?B n ?h1 yits accy" by (rule stable_items_fresh[OF syi])
        from IH p1 p2 p3 p4 lm obtain h' its' acc' where
          r1: "merge_items_st n ?h1 (length h) yits recursive list_merge = (Inr (), h')"
          and r2: "merge_items accx accy recursive list_merge = Inr acc'"
          and r3: "lookup h' (length h) = Some (ODict its')"
          and r4: "stable_items ?B n h' its' acc'"
          and r5: "extends_off ?B ?h1 h'"
          by blast
        have "merge_hash_st (Suc n) h x y recursive list_merge = (Inr (RObj (length h)), h')"
          using st fastF nr r1 by simp
        moreover have "merge_hash vx vy recursive list_merge = Inr (VDict acc')"
        proof -
          have "merge_hash vx vy recursive list_merge =
                  (case merge_items (dict_items vx) (dict_items vy) recursive list_merge of
                     Inl e \<Rightarrow> Inl e
                   | Inr x' \<Rightarrow> Inr (VDict x'))"
            using pu False nr by (simp only: if_False)
          then show ?thesis using r2 by (simp add: vx vy)
        qed
        moreover have "stable B (Suc n) h' (RObj (length h)) (VDict acc')"
        proof (rule stable_dict_intro[OF _ _ r3])
          show "length h < length h'" using r5 by (simp add: extends_off_def)
          show "length h \<notin> B" using B by auto
          show "stable_items B n h' its' acc'"
            by (rule stable_items_shrink[OF _ r4]) auto
        qed
        ultimately show ?thesis by blast
      qed
    qed
  qed
next
  case (3 n h x' recursive list_merge)
  show ?case by (auto simp: stable_items_def extends_off_refl)
next
  case (4 n h x' key y_value rest recursive list_merge)
  show ?case
  proof (intro allI impI)
    fix B its acc vys
    assume a: "B \<subseteq> {..<length h} \<and> x' \<in> B \<and> lookup h x' = Some (ODict its)
       \<and> stable_items B n h its acc \<and> stable_items B n h ((key, y_value) # rest) vys
       \<and> list_merge \<in> set list_merge_values"
    then have B: "B \<subseteq> {..<length h}" and x': "x' \<in> B"
      and l: "lookup h x' = Some (ODict its)" and si: "stable_items B n h its acc"
      and sys: "stable_items B n h ((key, y_value) # rest) vys"
      and lm: "list_merge \<in> set list_merge_values" by simp_all
    from sys obtain yv vrest where vys: "vys = (key, yv) # vrest"
      and sy: "stable B n h y_value yv" and srest: "stable_items B n h rest vrest"
      by (cases vys) (auto simp: stable_items_def)
    have d: "dict_items_st h (RObj x') = its" using l by simp
    let ?res = "merge_items_st n h x' ((key, y_value) # rest) recursive list_merge"
    let ?pure = "merge_items acc vys recursive list_merge"
    have goal: "\<exists>h' its' acc'. ?res = (Inr (), h') \<and> ?pure = Inr acc'
            \<and> lookup h' x' = Some (ODict its')
            \<and> stable_items B n h' its' acc' \<and> extends_off B h h'"
    proof (cases "map_of its key")
      case None
      then have pn: "map_of acc key = None" using stable_items_map_of_None[OF si] by simp
      let ?h1 = "setitem h x' key y_value"
      note s = sim_setitem[OF B x' l si sy, of key]
      have N': "map_of (dict_items_st h (RObj x')) key = None" using None d by simp
      from 4(1)[OF N'] s(4) x' s(1) s(2) stable_items_store[OF srest s(3)] lm
      obtain h' its' acc' where
        r1: "merge_items_st n ?h1 x' rest recursive list_merge = (Inr (), h')"
        and r2: "merge_items (dict_set key yv acc) vrest recursive list_merge = Inr acc'"
        and r3: "lookup h' x' = Some (ODict its')"
        and r4: "stable_items B n h' its' acc'"
        and r5: "extends_off B ?h1 h'"
        by blast
      have "?res = (Inr (), h')" using N' r1 by simp
      moreover have "?pure = Inr acc'" using pn r2 by (simp add: vys)
      moreover have "extends_off B h h'" by (rule extends_off_trans[OF s(3) r5])
      ultimately show ?thesis using r3 r4 by blast
    next
      case (Some x_value)
      then have S': "map_of (dict_items_st h (RObj x')) key = Some x_value" using d by simp
      from stable_items_map_of_Some[OF si Some] obtain xv where
        pm: "map_of acc key = Some xv" and sxv: "stable B n h x_value xv" by blast
      from 4(2)[OF S'] B sxv sy lm obtain h1 out where
        e: "merge_entry_st n h x_value y_value recursive list_merge = (Inr out, h1)"
        and rel: "case out of
                  None \<Rightarrow> merge_entry xv yv recursive list_merge = Inr None
                | Some r \<Rightarrow> (\<exists>v. merge_entry xv yv recursive list_merge = Inr (Some v)
                                \<and> stable B n h1 r v)"
        by blast
      have "frame (length h) h (snd (merge_entry_st n h x_value y_value recursive list_merge))"
        using frame_aux(3)[of "length h" h n x_value y_value recursive list_merge] by simp
      then have fr: "frame (length h) h h1" using e by simp
      have ext1: "extends_off B h h1" by (rule extends_off_frame[OF fr])
      have x'lt: "x' < length h" using B x' by auto
      have l1: "lookup h1 x' = Some (ODict its)"
        using fr l x'lt lookup_frame[of h h1 x'] by (simp add: frame_def)
      have B1: "B \<subseteq> {..<length h1}" using B ext1 by (auto simp: extends_off_def)
      have si1: "stable_items B n h1 its acc" by (rule stable_items_store[OF si ext1])
      have sr1: "stable_items B n h1 rest vrest" by (rule stable_items_store[OF srest ext1])
      show ?thesis
      proof (cases out)
        case None
        with rel have pe: "merge_entry xv yv recursive list_merge = Inr None" by simp
        from 4(3)[OF S' e[symmetric] refl None] B1 x' l1 si1 sr1 lm
        obtain h' its' acc' where
          r1: "merge_items_st n h1 x' rest recursive list_merge = (Inr (), h')"
          and r2: "merge_items acc vrest recursive list_merge = Inr acc'"
          and r3: "lookup h' x' = Some (ODict its')"
          and r4: "stable_items B n h' its' acc'"
          and r5: "extends_off B h1 h'"
          by blast
        have "?res = (Inr (), h')" using S' e None r1 by simp
        moreover have "?pure = Inr acc'" using pm pe r2 by (simp add: vys)
        moreover have "extends_off B h h'" by (rule extends_off_trans[OF ext1 r5])
        ultimately show ?thesis using r3 r4 by blast
      next
        case (Some r)
        with rel obtain v where pe: "merge_entry xv yv recursive list_merge = Inr (Some v)"
          and sr: "stable B n h1 r v" by auto
        let ?h2 = "setitem h1 x' key r"
        note s = sim_setitem[OF B1 x' l1 si1 sr, of key]
        from 4(4)[OF S' e[symmetric] refl Some] s(4) x' s(1) s(2)
          stable_items_store[OF sr1 s(3)] lm
        obtain h' its' acc' where
          r1: "merge_items_st n ?h2 x' rest recursive list_merge = (Inr (), h')"
          and r2: "merge_items (dict_set key v acc) vrest recursive list_merge = Inr acc'"
          and r3: "lookup h' x' = Some (ODict its')"
          and r4: "stable_items B n h' its' acc'"
          and r5: "extends_off B ?h2 h'"
          by blast
        have "?res = (Inr (), h')" using S' e Some r1 by simp
        moreover have "?pure = Inr acc'" using pm pe r2 by (simp add: vys)
        moreover have "extends_off B h h'"
          by (rule extends_off_trans[OF ext1 extends_off_trans[OF s(3) r5]])
        ultimately show ?thesis using r3 r4 by blast
      qed
    qed
    then show "\<exists>h' its' acc'. ?res = (Inr (), h') \<and> ?pure = Inr acc'
            \<and> lookup h' x' = Some (ODict its')
            \<and> stable_items B n h' its' acc' \<and> extends_off B h h'" .
  qed
next
  case (5 n h x_value y_value recursive list_merge)
  show ?case
  proof (intro allI impI)
    fix B xv yv
    assume a: "B \<subseteq> {..<length h} \<and> stable B n h x_value xv \<and> stable B n h y_value yv
       \<and> list_merge \<in> set list_merge_values"
    then have B: "B \<subseteq> {..<length h}" and sx: "stable B n h x_value xv"
      and sy: "stable B n h y_value yv"
      and lm: "list_merge \<in> set list_merge_values" by simp_all
    show "\<exists>h' out. merge_entry_st n h x_value y_value recursive list_merge = (Inr out, h')
            \<and> (case out of
                  None \<Rightarrow> merge_entry xv yv recursive list_merge = Inr None
                | Some r \<Rightarrow> (\<exists>v. merge_entry xv yv recursive list_merge = Inr (Some v)
                                \<and> stable B n h' r v))"
    proof (cases "is_mapping xv \<and> is_mapping yv")
      case False
      from sim_entry_not_mappings[OF B sx sy False] show ?thesis .
    next
      case True
      then have ms: "is_mapping_st h x_value \<and> is_mapping_st h y_value"
        using stable_mapping_iff[OF sx] stable_mapping_iff[OF sy] by simp
      note st = merge_entry_st_mappings[OF ms, of n recursive list_merge]
      from True have pu: "merge_entry xv yv recursive list_merge =
         (if recursive then
            (case merge_hash xv yv recursive list_merge of
               Inl e \<Rightarrow> Inl e
             | Inr v \<Rightarrow> Inr (Some v))
          else Inr (Some yv))"
        by (simp add: merge_entry_mappings)
      show ?thesis
      proof (cases recursive)
        case False
        have "merge_entry_st n h x_value y_value recursive list_merge = (Inr (Some y_value), h)"
          using st False by simp
        moreover have "merge_entry xv yv recursive list_merge = Inr (Some yv)"
          using pu False by simp
        ultimately show ?thesis using sy by simp
      next
        case r: True
        from 5[OF ms r] B sx sy True lm obtain a h' v where
          r1: "merge_hash_st n h x_value y_value recursive list_merge = (Inr (RObj a), h')"
          and r2: "merge_hash xv yv recursive list_merge = Inr v"
          and r3: "stable B n h' (RObj a) v"
          by blast
        have "merge_entry_st n h x_value y_value recursive list_merge
                = (Inr (Some (RObj a)), h')"
          using st r r1 by simp
        moreover have "merge_entry xv yv recursive list_merge = Inr (Some v)"
          using pu r r2 by simp
        ultimately show ?thesis using r3 by simp
      qed
    qed
  qed
qed


lemma stable_of_snapshot:
  assumes "snapshot n h r = Some v"
  shows "stable {} n h r v"
  unfolding stable_def
proof (intro allI impI)
  fix h'
  assume e: "extends_off {} h h'"
  then have "length h \<le> length h'" and "take (length h) h' = h"
    by (auto simp: extends_off_def intro: nth_equalityI)
  with snapshot_frame_aux(1)[of h h' n r v] assms show "snapshot n h' r = Some v" by simp
qed

theorem store_merge_agrees:
  assumes "snapshot n h x = Some vx" and "snapshot n h y = Some vy"
    and "is_mapping vx" and "is_mapping vy"
    and "list_merge \<in> set list_merge_values"
  shows "\<exists>a h' v. merge_hash_st n h x y recursive list_merge = (Inr (RObj a), h')
           \<and> merge_hash vx vy recursive list_merge = Inr v
           \<and> snapshot n h' (RObj a) = Some v"
proof -
  from sim_aux(1)[of h n x y list_merge recursive] assms
    stable_of_snapshot[OF assms(1)] stable_of_snapshot[OF assms(2)]
  obtain a h' v where "merge_hash_st n h x y recursive list_merge = (Inr (RObj a), h')"
    "merge_hash vx vy recursive list_merge = Inr v" "stable {} n h' (RObj a) v"
    by blast
  then show ?thesis using stable_snapshot by blast
qed

end
